theory Spec2Isabelle
  imports Complex_Main "HOL-Library.AList"
begin

section \<open>Pixels and image buffers (rgb.py, pictool1.py)\<close>

text \<open>
  \<^verbatim>\<open>class RGB\<close> stores four Python integers; the constructor applies \<^verbatim>\<open>int\<close> to each
  argument and nothing clamps them, so a channel is an unbounded \<open>int\<close>.
\<close>

record RGB =
  red :: int
  green :: int
  blue :: int
  alpha :: int

text \<open>
  An image buffer is a Python list of rows, each a list of \<^verbatim>\<open>RGB\<close> objects.
  \<^verbatim>\<open>read_image\<close> builds a fresh object for every position, so no two positions
  share an object and mutation of one pixel is an update of one entry.
\<close>

type_synonym image = "RGB list list"

text \<open>The exceptions the modelled code can raise.\<close>

datatype exn =
    IndexError | KeyError | ZeroDivisionError | AttributeError | ValueError | OverflowError
  | AssertionError

text \<open>
  \<^verbatim>\<open>verify_image\<close>: a non-empty list whose first row is non-empty and whose rows
  all have the width of the first. The \<^verbatim>\<open>type(item) != RGB\<close> test holds by typing.
\<close>

definition verify_image :: "image \<Rightarrow> bool" where
  "verify_image buffer =
     (if length buffer = 0 then False
      else if length (hd buffer) = 0 then False
      else list_all (\<lambda>row. length row = length (hd buffer)) buffer)"

definition height :: "image \<Rightarrow> nat" where
  "height img = length img"

definition width :: "image \<Rightarrow> nat" where
  "width img = length (hd img)"

section \<open>Geometric transforms (plugins2.py)\<close>

text \<open>
  \<^verbatim>\<open>flip\<close>: \<^verbatim>\<open>image.reverse()\<close> when \<^verbatim>\<open>vertical\<close>, otherwise \<^verbatim>\<open>row.reverse()\<close> for
  every row.
\<close>

definition flip :: "image \<Rightarrow> bool \<Rightarrow> image" where
  "flip img vertical = (if vertical then rev img else map rev img)"

text \<open>
  \<^verbatim>\<open>transpose\<close>: nothing happens when the image or its first row is empty. Otherwise
  \<^verbatim>\<open>[[image[r][c] for r in range(rows)] for c in range(cols)]\<close> with
  \<^verbatim>\<open>cols = len(image[0])\<close>; the read \<^verbatim>\<open>image[r][c]\<close> raises IndexError on a row
  shorter than the first.
\<close>

definition transpose_image :: "image \<Rightarrow> exn + image" where
  "transpose_image img =
     (if img = [] \<or> hd img = [] then Inr img
      else let rows = length img; cols = length (hd img) in
        if list_ex (\<lambda>row. length row < cols) img then Inl IndexError
        else Inr (map (\<lambda>c. map (\<lambda>r. img ! r ! c) [0..<rows]) [0..<cols]))"

text \<open>
  \<^verbatim>\<open>rotate\<close>: right is flip-vertical then transpose, left (the default) is transpose
  then flip-vertical.
\<close>

definition rotate_image :: "image \<Rightarrow> bool \<Rightarrow> exn + image" where
  "rotate_image img right =
     (if right then transpose_image (flip img True)
      else (case transpose_image img of
              Inl e \<Rightarrow> Inl e
            | Inr t \<Rightarrow> Inr (flip t True)))"

text \<open>Sequencing of calls that may raise.\<close>

definition then_do :: "exn + 'a \<Rightarrow> ('a \<Rightarrow> exn + 'b) \<Rightarrow> exn + 'b" where
  "then_do m f = (case m of Inl e \<Rightarrow> Inl e | Inr x \<Rightarrow> f x)"

text \<open>
  The constructor call \<^verbatim>\<open>RGB(red, green, blue, alpha)\<close> on integer arguments.
\<close>

definition mk_RGB :: "int \<Rightarrow> int \<Rightarrow> int \<Rightarrow> int \<Rightarrow> RGB" where
  "mk_RGB r g b a = \<lparr>red = r, green = g, blue = b, alpha = a\<rparr>"

section \<open>Command-line options (pictool1.py)\<close>

text \<open>
  A character of a command-line token. \<open>Ascii c\<close> is a code point below 128. \<open>Uni n k\<close> is
  the code point \<open>n\<close>, from 128 on, together with what the Unicode database says of it as
  far as \<^verbatim>\<open>str.isdigit\<close>, \<^verbatim>\<open>int\<close> and \<^verbatim>\<open>float\<close> ask: a decimal digit and its value (category
  Nd, such as U+0663), another digit (Numeric_Type=Digit, such as the superscript two
  U+00B2), white space, or none of these.
\<close>

datatype uclass = Decimal nat | Digit | Space | Plain

datatype pychar = Ascii char | Uni nat uclass

type_synonym pystr = "pychar list"

text \<open>A string literal of the source, and a token typed in ASCII.\<close>

definition str :: "string \<Rightarrow> pystr" where
  "str s = map Ascii s"

text \<open>
  A coerced option value. \<^verbatim>\<open>PyFloat s\<close> stands for the double that \<^verbatim>\<open>float(s)\<close> returns;
  its numeric value is not needed by the dispatcher and is represented by the accepted text.
\<close>

datatype pyval = PyBool bool | PyInt int | PyFloat pystr | PyStr pystr

type_synonym options = "(pystr \<times> pyval) list"

text \<open>
  \<^verbatim>\<open>str.isdigit\<close> is true when the string is not empty and every character is a digit,
  decimal or not.
\<close>

definition ascii_digit :: "char \<Rightarrow> bool" where
  "ascii_digit c = (c \<in> set ''0123456789'')"

fun isdigit_char :: "pychar \<Rightarrow> bool" where
  "isdigit_char (Ascii c) = ascii_digit c"
| "isdigit_char (Uni n (Decimal d)) = True"
| "isdigit_char (Uni n Digit) = True"
| "isdigit_char (Uni n Space) = False"
| "isdigit_char (Uni n Plain) = False"

definition isdigit :: "pystr \<Rightarrow> bool" where
  "isdigit s = (s \<noteq> [] \<and> list_all isdigit_char s)"

text \<open>
  \<^verbatim>\<open>int(value)\<close> on a string of digits. Only decimal digits have a value; any other
  character makes \<^verbatim>\<open>int\<close> raise ValueError, and so does, with the default setting of the
  interpreter, a string of more than 4300 digits.
\<close>

fun decimal_value :: "pychar \<Rightarrow> int option" where
  "decimal_value (Ascii c) = (if ascii_digit c then Some (int (of_char c) - 48) else None)"
| "decimal_value (Uni n (Decimal d)) = Some (int d)"
| "decimal_value (Uni n Digit) = None"
| "decimal_value (Uni n Space) = None"
| "decimal_value (Uni n Plain) = None"

definition int_max_str_digits :: nat where
  "int_max_str_digits = 4300"

definition int_of_digits :: "pystr \<Rightarrow> exn + int" where
  "int_of_digits s =
     (if s = [] \<or> list_ex (\<lambda>c. decimal_value c = None) s \<or> int_max_str_digits < length s
      then Inl ValueError
      else Inr (foldl (\<lambda>n c. 10 * n + (case decimal_value c of Some d \<Rightarrow> d | None \<Rightarrow> 0)) 0 s))"

text \<open>
  \<^verbatim>\<open>float(value)\<close> first rewrites the string in ASCII: a decimal digit becomes the ASCII
  digit of its value and white space becomes a blank; at the first other character from
  128 on the text is cut and ends in a question mark.
\<close>

fun to_ascii :: "pystr \<Rightarrow> string" where
  "to_ascii [] = []"
| "to_ascii (Ascii c # cs) = c # to_ascii cs"
| "to_ascii (Uni n (Decimal d) # cs) = char_of (48 + d) # to_ascii cs"
| "to_ascii (Uni n Space # cs) = CHR '' '' # to_ascii cs"
| "to_ascii (Uni n Digit # cs) = ''?''"
| "to_ascii (Uni n Plain # cs) = ''?''"

text \<open>
  The ASCII texts that \<^verbatim>\<open>float\<close> accepts: underscores only between two digits; after
  removing them and stripping white space at both ends, an optional sign followed by
  \<^verbatim>\<open>inf\<close>, \<^verbatim>\<open>infinity\<close> or \<^verbatim>\<open>nan\<close> in any letter case, or by a decimal numeral with at
  least one digit in its mantissa and an optional exponent that has at least one digit.
\<close>

definition ascii_digits :: "string \<Rightarrow> bool" where
  "ascii_digits s = (s \<noteq> [] \<and> list_all ascii_digit s)"

definition isspace_char :: "char \<Rightarrow> bool" where
  "isspace_char c = (c \<in> set [CHR '' '', CHR 0x09, CHR 0x0A, CHR 0x0B, CHR 0x0C, CHR 0x0D])"

definition strip :: "string \<Rightarrow> string" where
  "strip s = rev (dropWhile isspace_char (rev (dropWhile isspace_char s)))"

fun underscores_ok :: "char \<Rightarrow> string \<Rightarrow> bool" where
  "underscores_ok prev [] = (prev \<noteq> CHR ''_'')"
| "underscores_ok prev (p # ps) =
     (if p = CHR ''_'' then ascii_digit prev \<and> underscores_ok p ps
      else if prev = CHR ''_'' then ascii_digit p \<and> underscores_ok p ps
      else underscores_ok p ps)"

definition sign_stripped :: "string \<Rightarrow> string" where
  "sign_stripped s =
     (case s of [] \<Rightarrow> []
      | c # cs \<Rightarrow> if c = CHR ''+'' \<or> c = CHR ''-'' then cs else s)"

definition to_lower :: "char \<Rightarrow> char" where
  "to_lower c =
     (if c \<in> set ''ABCDEFGHIJKLMNOPQRSTUVWXYZ'' then char_of (of_char c + (32::nat)) else c)"

definition exponent_ok :: "string \<Rightarrow> bool" where
  "exponent_ok t =
     (case t of [] \<Rightarrow> True
      | e # u \<Rightarrow> (e = CHR ''e'' \<or> e = CHR ''E'') \<and> ascii_digits (sign_stripped u))"

definition decimal_ok :: "string \<Rightarrow> bool" where
  "decimal_ok t =
     (let ip = takeWhile ascii_digit t;
          r = dropWhile ascii_digit t;
          fp = (case r of [] \<Rightarrow> []
                | c # cs \<Rightarrow> if c = CHR ''.'' then takeWhile ascii_digit cs else []);
          r' = (case r of [] \<Rightarrow> []
                | c # cs \<Rightarrow> if c = CHR ''.'' then dropWhile ascii_digit cs else r)
      in (ip \<noteq> [] \<or> fp \<noteq> []) \<and> exponent_ok r')"

definition float_ok :: "string \<Rightarrow> bool" where
  "float_ok s =
     (underscores_ok (CHR 0x00) s \<and>
      (let t = sign_stripped (strip (filter (\<lambda>c. c \<noteq> CHR ''_'') s))
       in map to_lower t = ''inf'' \<or> map to_lower t = ''infinity'' \<or> map to_lower t = ''nan''
          \<or> decimal_ok t))"

text \<open>
  The coercion inside \<^verbatim>\<open>extract_options\<close>: \<^verbatim>\<open>eval\<close> of \<^verbatim>\<open>'True'\<close> or \<^verbatim>\<open>'False'\<close>,
  else \<^verbatim>\<open>int\<close> when \<^verbatim>\<open>isdigit\<close>, else \<^verbatim>\<open>float\<close> unless it raises, else the string.
  Only the call of \<^verbatim>\<open>float\<close> is inside the \<^verbatim>\<open>try\<close>: an exception of \<^verbatim>\<open>int\<close> leaves
  \<^verbatim>\<open>extract_options\<close>.
\<close>

definition coerce :: "pystr \<Rightarrow> exn + pyval" where
  "coerce v =
     (if v \<in> set [str ''True'', str ''False''] then Inr (PyBool (v = str ''True''))
      else if isdigit v then then_do (int_of_digits v) (\<lambda>n. Inr (PyInt n))
      else if float_ok (to_ascii v) then Inr (PyFloat v)
      else Inr (PyStr v))"

definition startswith :: "pystr \<Rightarrow> pystr \<Rightarrow> bool" where
  "startswith s p = (take (length p) s = p)"

definition find_char :: "pystr \<Rightarrow> pychar \<Rightarrow> nat" where
  "find_char s c = length (takeWhile (\<lambda>x. x \<noteq> c) s)"

definition is_option :: "pystr \<Rightarrow> bool" where
  "is_option item = (startswith item (str ''--'') \<and> Ascii CHR ''='' \<in> set item)"

definition option_key :: "pystr \<Rightarrow> pystr" where
  "option_key item = take (find_char item (Ascii CHR ''='') - 2) (drop 2 item)"

definition option_value :: "pystr \<Rightarrow> exn + pyval" where
  "option_value item = coerce (drop (find_char item (Ascii CHR ''='') + 1) item)"

text \<open>
  \<^verbatim>\<open>extract_options\<close> scans \<^verbatim>\<open>args[1:]\<close>; an option token is deleted from \<^verbatim>\<open>args\<close> and
  stored in the dictionary (a later token with the same key overwrites the value and keeps
  the key's position), any other token is kept. The result is the dictionary together
  with the list \<^verbatim>\<open>args\<close> as the loop leaves it, or the exception of the first option
  value that \<^verbatim>\<open>int\<close> refuses.
\<close>

fun extract_loop :: "options \<Rightarrow> pystr list \<Rightarrow> exn + options \<times> pystr list" where
  "extract_loop opts [] = Inr (opts, [])"
| "extract_loop opts (item # rest) =
     (if is_option item
      then then_do (option_value item)
             (\<lambda>v. extract_loop (AList.update (option_key item) v opts) rest)
      else then_do (extract_loop opts rest)
             (\<lambda>(opts', rest'). Inr (opts', item # rest')))"

definition extract_options :: "pystr list \<Rightarrow> exn + options \<times> pystr list" where
  "extract_options args =
     (case args of [] \<Rightarrow> Inr ([], [])
      | prog # rest \<Rightarrow>
          then_do (extract_loop [] rest) (\<lambda>(opts, rest'). Inr (opts, prog # rest')))"

section \<open>Command lookup (pictool1.py)\<close>

text \<open>
  What \<^verbatim>\<open>getattr(plugins2, name)\<close> can return: a function, described by
  \<^verbatim>\<open>co_varnames[:co_argcount]\<close> and the number of its defaults, or an object without
  \<^verbatim>\<open>__code__\<close> (a module, a class, a string, a method wrapper).
\<close>

datatype attr = Function "pystr list" nat | Other

type_synonym module = "pystr \<Rightarrow> attr option"

text \<open>
  The error strings: the usage line, \<^verbatim>\<open>unrecognized command\<close>,
  \<^verbatim>\<open>does not have default values after first parameter\<close> and
  \<^verbatim>\<open>does not recognize the following options\<close> with the comma-separated flags.
\<close>

datatype message =
    Usage
  | Unrecognized_command pystr
  | No_default_values pystr
  | Unrecognized_options pystr pystr

datatype lookup = Command pystr | Error message

fun join :: "pystr \<Rightarrow> pystr list \<Rightarrow> pystr" where
  "join sep [] = []"
| "join sep [x] = x"
| "join sep (x # y # zs) = x @ sep @ join sep (y # zs)"

definition lookup_command :: "module \<Rightarrow> pystr \<Rightarrow> options \<Rightarrow> exn + lookup" where
  "lookup_command plugins cmd opts =
     (case plugins cmd of
        None \<Rightarrow> Inr (Error (Unrecognized_command cmd))
      | Some Other \<Rightarrow> Inl AttributeError
      | Some (Function param dsize) \<Rightarrow>
          if length param \<noteq> dsize + 1 then Inr (Error (No_default_values cmd))
          else let badargs = filter (\<lambda>key. key \<notin> set param) (map fst opts) in
            if badargs \<noteq> []
            then Inr (Error (Unrecognized_options cmd
                               (join (str '', '') (map (\<lambda>x. str ''--'' @ x) badargs))))
            else Inr (Command cmd))"

text \<open>
  The attributes of the module \<^verbatim>\<open>plugins2\<close>: the names its source binds (three imports,
  eleven functions) and the attributes every module object has.
\<close>

definition plugins2_attrs :: "(pystr \<times> attr) list" where
  "plugins2_attrs =
     [(str ''RGB'', Other), (str ''math'', Other), (str ''random'', Other),
      (str ''display'', Function [str ''image''] 0),
      (str ''dered'', Function [str ''image''] 0),
      (str ''mono'', Function [str ''image'', str ''sepia''] 1),
      (str ''flip'', Function [str ''image'', str ''vertical''] 1),
      (str ''transpose'', Function [str ''image''] 0),
      (str ''rotate'', Function [str ''image'', str ''right''] 1),
      (str ''vignette'', Function [str ''image''] 0),
      (str ''blur'', Function [str ''image'', str ''radius''] 1),
      (str ''pixellate'', Function [str ''image'', str ''step''] 1),
      (str ''scramble'', Function [str ''image'', str ''amount''] 1),
      (str ''brighten'', Function [str ''image'', str ''factor''] 1)] @
     map (\<lambda>n. (str n, Other))
       [''__name__'', ''__doc__'', ''__package__'', ''__loader__'', ''__spec__'',
        ''__file__'', ''__cached__'', ''__builtins__'', ''__annotations__'', ''__class__'',
        ''__delattr__'', ''__dict__'', ''__dir__'', ''__eq__'', ''__format__'', ''__ge__'',
        ''__getattribute__'', ''__getstate__'', ''__gt__'', ''__hash__'', ''__init__'',
        ''__init_subclass__'', ''__le__'', ''__lt__'', ''__ne__'', ''__new__'',
        ''__reduce__'', ''__reduce_ex__'', ''__repr__'', ''__setattr__'', ''__sizeof__'',
        ''__str__'', ''__subclasshook__'']"

definition plugins2 :: module where
  "plugins2 = map_of plugins2_attrs"

text \<open>The names of the transforms that \<^verbatim>\<open>plugins2\<close> defines.\<close>

definition registry :: "pystr list" where
  "registry = map str [''display'', ''dered'', ''mono'', ''flip'', ''transpose'', ''rotate'',
               ''vignette'', ''blur'', ''pixellate'', ''scramble'', ''brighten'']"

text \<open>
  The dictionary that \<^verbatim>\<open>parse_args\<close> returns; an absent key is \<open>None\<close>.
\<close>

record parsed =
  res_error :: "message option"
  res_command :: "pystr option"
  res_options :: "options option"
  res_input :: "pystr option"
  res_output :: "pystr option"

definition parse_args :: "module \<Rightarrow> pystr list \<Rightarrow> exn + parsed" where
  "parse_args plugins argv =
     then_do (extract_options argv) (\<lambda>(opts, args).
        if length args \<notin> set [3, 4]
        then Inr \<lparr>res_error = Some Usage, res_command = None, res_options = None,
                  res_input = None, res_output = None\<rparr>
        else (case lookup_command plugins (args ! 1) opts of
                Inl e \<Rightarrow> Inl e
              | Inr (Error m) \<Rightarrow>
                  Inr \<lparr>res_error = Some m, res_command = None, res_options = None,
                       res_input = Some (args ! 2),
                       res_output = (if length args = 4 then Some (args ! 3) else None)\<rparr>
              | Inr (Command f) \<Rightarrow>
                  Inr \<lparr>res_error = None, res_command = Some f, res_options = Some opts,
                       res_input = Some (args ! 2),
                       res_output = (if length args = 4 then Some (args ! 3) else None)\<rparr>))"


text \<open>
  \<^verbatim>\<open>main\<close>, as the sequence of its observable steps. Reading the image and calling the
  plug-in with the keyword options are parameters: \<open>read_image\<close> returns \<open>None\<close> when the
  file cannot be loaded, \<open>call f opts buffer\<close> returns the buffer after the call and the
  plug-in's result, or the exception it raises.
\<close>

datatype event =
    Print message
  | Read_image pystr
  | Call pystr options
  | Save_image pystr image

definition main ::
  "module \<Rightarrow> (pystr \<Rightarrow> image option) \<Rightarrow> (pystr \<Rightarrow> options \<Rightarrow> image \<Rightarrow> exn + image \<times> bool)
     \<Rightarrow> pystr list \<Rightarrow> exn + event list" where
  "main plugins read_image call argv =
     (case parse_args plugins argv of
        Inl e \<Rightarrow> Inl e
      | Inr args \<Rightarrow>
         (case res_error args of
            Some m \<Rightarrow> Inr [Print m]
          | None \<Rightarrow>
             (case (res_command args, res_options args, res_input args) of
                (Some f, Some opts, Some inp) \<Rightarrow>
                  (case read_image inp of
                     None \<Rightarrow> Inr [Read_image inp]
                   | Some buffer \<Rightarrow>
                      (case call f opts buffer of
                         Inl e \<Rightarrow> Inl e
                       | Inr (buffer', process) \<Rightarrow>
                          (case res_output args of
                             None \<Rightarrow> Inr [Read_image inp, Call f opts]
                           | Some out \<Rightarrow>
                               if \<not> process then Inr [Read_image inp, Call f opts]
                               else if \<not> verify_image buffer' then Inl AssertionError
                               else Inr [Read_image inp, Call f opts, Save_image out buffer'])))
              | _ \<Rightarrow> Inl KeyError)))"

section \<open>Python floats\<close>

text \<open>
  A Python float is an IEEE 754 binary64 value: a finite double, an infinity or a NaN.
  A finite double is represented by the real number it denotes (the sign of a zero is not
  kept: no operation used here distinguishes the two zeros).
\<close>

datatype pyfloat = Finite real | PosInf | NegInf | NaN

text \<open>
  Rounding to an integer, ties to the even neighbour: \<^verbatim>\<open>round(x)\<close> on a finite float, and
  the rounding of a significand.
\<close>

definition round_half_even :: "real \<Rightarrow> int" where
  "round_half_even x =
     (let f = \<lfloor>x\<rfloor>; d = x - of_int f in
      if d < 1 / 2 then f else if 1 / 2 < d then f + 1 else if even f then f else f + 1)"

text \<open>
  The doubles near \<open>x \<noteq> 0\<close> are the multiples of \<open>2 powi ulp_exp x\<close>: 53 significant bits,
  and no exponent below that of the subnormal numbers. \<open>fl x\<close> is the multiple nearest to
  \<open>x\<close>, ties to even; it is the result of a correctly rounded operation whose exact result
  is \<open>x\<close>, as long as it stays below \<open>2 ^ 1024\<close> in magnitude.
\<close>

definition ulp_exp :: "real \<Rightarrow> int" where
  "ulp_exp x = max (\<lfloor>log 2 \<bar>x\<bar>\<rfloor> - 52) (- 1074)"

definition fl :: "real \<Rightarrow> real" where
  "fl x = (if x = 0 then 0
           else of_int (round_half_even (x / 2 powi ulp_exp x)) * 2 powi ulp_exp x)"

definition rnd :: "real \<Rightarrow> pyfloat" where
  "rnd x = (if 2 ^ 1024 \<le> fl x then PosInf
            else if fl x \<le> - (2 ^ 1024) then NegInf
            else Finite (fl x))"

text \<open>
  Conversion of a Python integer to a float, as done for the integer operand of a mixed
  operation and by \<^verbatim>\<open>math.sqrt\<close>: OverflowError when the integer is too large.
\<close>

definition float_of_int :: "int \<Rightarrow> exn + pyfloat" where
  "float_of_int n = (case rnd (of_int n) of Finite x \<Rightarrow> Inr (Finite x) | _ \<Rightarrow> Inl OverflowError)"

fun fneg :: "pyfloat \<Rightarrow> pyfloat" where
  "fneg (Finite a) = Finite (- a)"
| "fneg PosInf = NegInf"
| "fneg NegInf = PosInf"
| "fneg NaN = NaN"

fun fmul :: "pyfloat \<Rightarrow> pyfloat \<Rightarrow> pyfloat" where
  "fmul (Finite a) (Finite b) = rnd (a * b)"
| "fmul NaN y = NaN"
| "fmul x NaN = NaN"
| "fmul (Finite a) PosInf = (if a = 0 then NaN else if 0 < a then PosInf else NegInf)"
| "fmul (Finite a) NegInf = (if a = 0 then NaN else if 0 < a then NegInf else PosInf)"
| "fmul PosInf (Finite b) = (if b = 0 then NaN else if 0 < b then PosInf else NegInf)"
| "fmul NegInf (Finite b) = (if b = 0 then NaN else if 0 < b then NegInf else PosInf)"
| "fmul PosInf PosInf = PosInf"
| "fmul PosInf NegInf = NegInf"
| "fmul NegInf PosInf = NegInf"
| "fmul NegInf NegInf = PosInf"

fun fadd :: "pyfloat \<Rightarrow> pyfloat \<Rightarrow> pyfloat" where
  "fadd (Finite a) (Finite b) = rnd (a + b)"
| "fadd NaN y = NaN"
| "fadd x NaN = NaN"
| "fadd PosInf NegInf = NaN"
| "fadd NegInf PosInf = NaN"
| "fadd PosInf y = PosInf"
| "fadd NegInf y = NegInf"
| "fadd x PosInf = PosInf"
| "fadd x NegInf = NegInf"

definition fsub :: "pyfloat \<Rightarrow> pyfloat \<Rightarrow> pyfloat" where
  "fsub x y = fadd x (fneg y)"

text \<open>
  Float division raises ZeroDivisionError on a zero divisor, whatever the dividend.
\<close>

fun fdiv :: "pyfloat \<Rightarrow> pyfloat \<Rightarrow> exn + pyfloat" where
  "fdiv x (Finite b) =
     (if b = 0 then Inl ZeroDivisionError
      else case x of
        Finite a \<Rightarrow> Inr (rnd (a / b))
      | PosInf \<Rightarrow> Inr (if 0 < b then PosInf else NegInf)
      | NegInf \<Rightarrow> Inr (if 0 < b then NegInf else PosInf)
      | NaN \<Rightarrow> Inr NaN)"
| "fdiv x NaN = Inr NaN"
| "fdiv (Finite a) y = Inr (Finite 0)"
| "fdiv NaN y = Inr NaN"
| "fdiv x y = Inr NaN"

text \<open>
  \<^verbatim>\<open>x ** 2\<close> on a float calls the C library's \<^verbatim>\<open>pow\<close>, whose rounding the language
  does not fix; \<open>pow2\<close> is that function on finite doubles. An overflowing result raises
  OverflowError.
\<close>

fun fpow2 :: "(real \<Rightarrow> real) \<Rightarrow> pyfloat \<Rightarrow> exn + pyfloat" where
  "fpow2 pow2 (Finite a) =
     (if 2 ^ 1024 \<le> \<bar>pow2 a\<bar> then Inl OverflowError else Inr (Finite (pow2 a)))"
| "fpow2 pow2 NaN = Inr NaN"
| "fpow2 pow2 x = Inr PosInf"

text \<open>
  \<^verbatim>\<open>math.sqrt\<close> of an integer: the integer is converted to a float, a negative argument
  is a domain error (ValueError), and the square root is correctly rounded.
\<close>

definition py_sqrt :: "int \<Rightarrow> exn + pyfloat" where
  "py_sqrt n =
     then_do (float_of_int n)
       (\<lambda>x. case x of
               Finite a \<Rightarrow> if a < 0 then Inl ValueError else Inr (Finite (fl (sqrt a)))
             | _ \<Rightarrow> Inr x)"

text \<open>
  \<^verbatim>\<open>round(x)\<close> and \<^verbatim>\<open>int(x)\<close> on a float: OverflowError on an infinity, ValueError on
  NaN; \<^verbatim>\<open>int\<close> truncates toward zero.
\<close>

fun py_round :: "pyfloat \<Rightarrow> exn + int" where
  "py_round (Finite a) = Inr (round_half_even a)"
| "py_round NaN = Inl ValueError"
| "py_round x = Inl OverflowError"

definition truncate :: "real \<Rightarrow> int" where
  "truncate x = (if 0 \<le> x then \<lfloor>x\<rfloor> else \<lceil>x\<rceil>)"

fun py_int :: "pyfloat \<Rightarrow> exn + int" where
  "py_int (Finite a) = Inr (truncate a)"
| "py_int NaN = Inl ValueError"
| "py_int x = Inl OverflowError"

text \<open>
  \<^verbatim>\<open>a / b\<close> on two integers: ZeroDivisionError on a zero divisor, else the correctly
  rounded quotient, OverflowError when that is too large for a float.
\<close>

definition truediv :: "int \<Rightarrow> int \<Rightarrow> exn + pyfloat" where
  "truediv a b =
     (if b = 0 then Inl ZeroDivisionError
      else case rnd (of_int a / of_int b) of
             Finite x \<Rightarrow> Inr (Finite x)
           | _ \<Rightarrow> Inl OverflowError)"

text \<open>The float literals of \<^verbatim>\<open>mono\<close>.\<close>

definition lit :: "real \<Rightarrow> pyfloat" where
  "lit x = Finite (fl x)"

section \<open>Pixel transforms (plugins2.py)\<close>

text \<open>The first exception of a sequence of computations, or all their results.\<close>

fun sequence :: "(exn + 'a) list \<Rightarrow> exn + 'a list" where
  "sequence [] = Inr []"
| "sequence (m # ms) = then_do m (\<lambda>x. then_do (sequence ms) (\<lambda>xs. Inr (x # xs)))"

text \<open>A loop \<^verbatim>\<open>for row in image: for pixel in row:\<close> that updates every pixel.\<close>

definition for_each_pixel :: "(RGB \<Rightarrow> exn + RGB) \<Rightarrow> image \<Rightarrow> exn + image" where
  "for_each_pixel f img = sequence (map (\<lambda>row. sequence (map f row)) img)"

text \<open>\<^verbatim>\<open>xs[i]\<close> on a list: a negative index counts from the end.\<close>

definition py_index :: "'a list \<Rightarrow> int \<Rightarrow> exn + 'a" where
  "py_index xs i =
     (let n = int (length xs); j = (if i < 0 then i + n else i)
      in if 0 \<le> j \<and> j < n then Inr (xs ! nat j) else Inl IndexError)"

text \<open>\<^verbatim>\<open>dered\<close>: \<^verbatim>\<open>pixel.red = 0\<close> for every pixel.\<close>

definition dered :: "image \<Rightarrow> image" where
  "dered img = map (map (\<lambda>pixel. pixel\<lparr>red := 0\<rparr>)) img"

text \<open>
  \<^verbatim>\<open>mono\<close>: \<^verbatim>\<open>brightness = 0.3 * pixel.red + 0.6 * pixel.green + 0.1 * pixel.blue\<close> in
  floats, then \<^verbatim>\<open>int\<close> of the brightness (and of its multiples for sepia).
\<close>

definition int_times :: "pyfloat \<Rightarrow> int \<Rightarrow> exn + pyfloat" where
  "int_times x n = then_do (float_of_int n) (\<lambda>y. Inr (fmul x y))"

definition brightness :: "RGB \<Rightarrow> exn + pyfloat" where
  "brightness pixel =
     then_do (int_times (lit (3 / 10)) (red pixel)) (\<lambda>r.
     then_do (int_times (lit (6 / 10)) (green pixel)) (\<lambda>g.
     then_do (int_times (lit (1 / 10)) (blue pixel)) (\<lambda>b.
       Inr (fadd (fadd r g) b))))"

definition mono_pixel :: "bool \<Rightarrow> RGB \<Rightarrow> exn + RGB" where
  "mono_pixel sepia pixel =
     then_do (brightness pixel) (\<lambda>br.
       if sepia then
         then_do (py_int br) (\<lambda>r.
         then_do (py_int (fmul (lit (6 / 10)) br)) (\<lambda>g.
         then_do (py_int (fmul (lit (4 / 10)) br)) (\<lambda>b.
           Inr (pixel\<lparr>red := r, green := g, blue := b\<rparr>))))
       else
         then_do (py_int br) (\<lambda>gray.
           Inr (pixel\<lparr>red := gray, green := gray, blue := gray\<rparr>)))"

definition mono_image :: "image \<Rightarrow> bool \<Rightarrow> exn + image" where
  "mono_image img sepia = for_each_pixel (mono_pixel sepia) img"

text \<open>
  \<^verbatim>\<open>brighten\<close>: \<^verbatim>\<open>min(round(channel * factor), 255)\<close> for red, green and blue.
\<close>

definition brighten_channel :: "pyfloat \<Rightarrow> int \<Rightarrow> exn + int" where
  "brighten_channel factor v =
     then_do (float_of_int v) (\<lambda>x. then_do (py_round (fmul x factor)) (\<lambda>n. Inr (min n 255)))"

definition brighten_pixel :: "pyfloat \<Rightarrow> RGB \<Rightarrow> exn + RGB" where
  "brighten_pixel factor pixel =
     then_do (brighten_channel factor (red pixel)) (\<lambda>r.
     then_do (brighten_channel factor (green pixel)) (\<lambda>g.
     then_do (brighten_channel factor (blue pixel)) (\<lambda>b.
       Inr (pixel\<lparr>red := r, green := g, blue := b\<rparr>))))"

definition brighten :: "image \<Rightarrow> pyfloat \<Rightarrow> exn + image" where
  "brighten img factor = for_each_pixel (brighten_pixel factor) img"

text \<open>
  \<^verbatim>\<open>vignette\<close>. \<^verbatim>\<open>H = math.sqrt(center_row**2 + center_col**2)\<close>; for every position of the
  \<^verbatim>\<open>height\<close> by \<^verbatim>\<open>width\<close> table, \<^verbatim>\<open>factor = 1 - (d / H)**2\<close> with \<^verbatim>\<open>d\<close> the square root of
  the squared distance to the centre, then \<^verbatim>\<open>pixel = image[r][c]\<close> and the three
  assignments \<^verbatim>\<open>round(channel * factor)\<close>.
\<close>

definition vignette_factor ::
  "(real \<Rightarrow> real) \<Rightarrow> pyfloat \<Rightarrow> int \<Rightarrow> int \<Rightarrow> nat \<Rightarrow> nat \<Rightarrow> exn + pyfloat" where
  "vignette_factor pow2 H center_row center_col r c =
     then_do (py_sqrt ((int r - center_row)\<^sup>2 + (int c - center_col)\<^sup>2)) (\<lambda>d.
     then_do (fdiv d H) (\<lambda>q.
     then_do (fpow2 pow2 q) (\<lambda>s.
       Inr (fsub (Finite 1) s))))"

definition scale_channel :: "pyfloat \<Rightarrow> int \<Rightarrow> exn + int" where
  "scale_channel factor v = then_do (float_of_int v) (\<lambda>x. py_round (fmul x factor))"

definition vignette_pixel :: "pyfloat \<Rightarrow> RGB \<Rightarrow> exn + RGB" where
  "vignette_pixel factor pixel =
     then_do (scale_channel factor (red pixel)) (\<lambda>r.
     then_do (scale_channel factor (green pixel)) (\<lambda>g.
     then_do (scale_channel factor (blue pixel)) (\<lambda>b.
       Inr (pixel\<lparr>red := r, green := g, blue := b\<rparr>))))"

definition vignette_row ::
  "(real \<Rightarrow> real) \<Rightarrow> pyfloat \<Rightarrow> int \<Rightarrow> int \<Rightarrow> nat \<Rightarrow> nat \<Rightarrow> RGB list \<Rightarrow> exn + RGB list" where
  "vignette_row pow2 H center_row center_col wd r row =
     then_do
       (sequence (map (\<lambda>c.
          then_do (vignette_factor pow2 H center_row center_col r c) (\<lambda>factor.
          then_do (py_index row (int c)) (\<lambda>pixel.
            vignette_pixel factor pixel))) [0..<wd]))
       (\<lambda>ps. Inr (ps @ drop wd row))"

definition vignette :: "(real \<Rightarrow> real) \<Rightarrow> image \<Rightarrow> exn + image" where
  "vignette pow2 img =
     then_do (py_index img 0) (\<lambda>first.
       let ht = length img; wd = length first;
           center_row = int ht div 2; center_col = int wd div 2
       in then_do (py_sqrt (center_row\<^sup>2 + center_col\<^sup>2)) (\<lambda>H.
            sequence (map (\<lambda>r. vignette_row pow2 H center_row center_col wd r (img ! r))
                        [0..<ht])))"

text \<open>
  \<^verbatim>\<open>blur\<close>. The averages are taken over \<^verbatim>\<open>original\<close>, the copy made before the loops:
  the rows \<^verbatim>\<open>row_min .. row_max\<close> and the columns \<^verbatim>\<open>col_min .. col_max\<close> around the
  position; every channel is \<^verbatim>\<open>round(total / count)\<close>.
\<close>

definition average :: "int list \<Rightarrow> exn + int" where
  "average vs = then_do (truediv (sum_list vs) (int (length vs))) py_round"

definition average_pixel :: "RGB list \<Rightarrow> exn + RGB" where
  "average_pixel ps =
     then_do (average (map red ps)) (\<lambda>r.
     then_do (average (map green ps)) (\<lambda>g.
     then_do (average (map blue ps)) (\<lambda>b.
     then_do (average (map alpha ps)) (\<lambda>a.
       Inr (mk_RGB r g b a)))))"

definition cells :: "int \<Rightarrow> int \<Rightarrow> int \<Rightarrow> int \<Rightarrow> (int \<times> int) list" where
  "cells row_lo row_hi col_lo col_hi =
     concat (map (\<lambda>i. map (\<lambda>j. (i, j)) [col_lo..col_hi]) [row_lo..row_hi])"

definition read_cells :: "image \<Rightarrow> (int \<times> int) list \<Rightarrow> exn + RGB list" where
  "read_cells img ijs =
     sequence (map (\<lambda>(i, j). then_do (py_index img i) (\<lambda>row. py_index row j)) ijs)"

definition blur_pixel :: "image \<Rightarrow> int \<Rightarrow> nat \<Rightarrow> nat \<Rightarrow> exn + RGB" where
  "blur_pixel original radius r c =
     (let ht = int (length original); wd = int (length (hd original));
          row_min = max 0 (int r - radius); row_max = min (ht - 1) (int r + radius);
          col_min = max 0 (int c - radius); col_max = min (wd - 1) (int c + radius)
      in then_do (read_cells original (cells row_min row_max col_min col_max)) average_pixel)"

definition blur_row :: "image \<Rightarrow> int \<Rightarrow> nat \<Rightarrow> RGB list \<Rightarrow> exn + RGB list" where
  "blur_row original radius r row =
     then_do
       (sequence (map (\<lambda>c.
          then_do (blur_pixel original radius r c) (\<lambda>p.
            if c < length row then Inr p else Inl IndexError))
          [0..<length (hd original)]))
       (\<lambda>ps. Inr (ps @ drop (length (hd original)) row))"

definition blur :: "image \<Rightarrow> int \<Rightarrow> exn + image" where
  "blur img radius =
     (if img = [] then Inl IndexError
      else sequence (map (\<lambda>r. blur_row img radius r (img ! r)) [0..<length img]))"

text \<open>
  \<^verbatim>\<open>pixellate\<close>. The blocks start at the multiples of \<^verbatim>\<open>step\<close>; a block is read from the
  image as the earlier blocks left it, averaged, and every position of the block receives
  the average. \<^verbatim>\<open>range(0, height, step)\<close> raises ValueError for a zero step and is empty
  for a negative one.
\<close>

definition range_step :: "nat \<Rightarrow> nat \<Rightarrow> nat list" where
  "range_step n step = map (\<lambda>k. k * step) [0..<(n + step - 1) div step]"

definition fill_block :: "image \<Rightarrow> nat \<Rightarrow> nat \<Rightarrow> nat \<Rightarrow> nat \<Rightarrow> RGB \<Rightarrow> image" where
  "fill_block img row row_max col col_max p =
     map (\<lambda>r. map (\<lambda>c. if row \<le> r \<and> r < row_max \<and> col \<le> c \<and> c < col_max then p
                        else img ! r ! c) [0..<length (img ! r)]) [0..<length img]"

definition pixellate_block :: "nat \<Rightarrow> nat \<Rightarrow> nat \<Rightarrow> nat \<times> nat \<Rightarrow> image \<Rightarrow> exn + image" where
  "pixellate_block ht wd step rc img =
     (case rc of (row, col) \<Rightarrow>
        let row_max = min (row + step) ht; col_max = min (col + step) wd
        in then_do (read_cells img (cells (int row) (int row_max - 1) (int col) (int col_max - 1)))
             (\<lambda>ps. then_do (average_pixel ps)
                (\<lambda>avg_pixel. Inr (fill_block img row row_max col col_max avg_pixel))))"

fun pixellate_loop :: "nat \<Rightarrow> nat \<Rightarrow> nat \<Rightarrow> (nat \<times> nat) list \<Rightarrow> image \<Rightarrow> exn + image" where
  "pixellate_loop ht wd step [] img = Inr img"
| "pixellate_loop ht wd step (rc # rcs) img =
     then_do (pixellate_block ht wd step rc img) (pixellate_loop ht wd step rcs)"

definition pixellate :: "image \<Rightarrow> int \<Rightarrow> exn + image" where
  "pixellate img step =
     then_do (py_index img 0) (\<lambda>first.
       let ht = length img; wd = length first in
       if step = 0 then Inl ValueError
       else if step < 0 then Inr img
       else pixellate_loop ht wd (nat step)
              (concat (map (\<lambda>row. map (\<lambda>col. (row, col)) (range_step wd (nat step)))
                         (range_step ht (nat step))))
              img)"

text \<open>
  \<^verbatim>\<open>scramble\<close>. The random source is a sequence of raw draws; \<^verbatim>\<open>randint(a, b)\<close> maps
  the next draw into \<^verbatim>\<open>a .. b\<close> and raises ValueError on an empty range. One round draws
  the row, the column, reads the pixel and draws red, green and blue.
\<close>

definition randint :: "(nat \<Rightarrow> nat) \<Rightarrow> nat \<Rightarrow> int \<Rightarrow> int \<Rightarrow> exn + int" where
  "randint draws k a b =
     (if b < a then Inl ValueError else Inr (a + int (draws k) mod (b - a + 1)))"

definition scramble_step :: "(nat \<Rightarrow> nat) \<Rightarrow> int \<Rightarrow> int \<Rightarrow> nat \<Rightarrow> image \<Rightarrow> exn + image" where
  "scramble_step draws ht wd k img =
     then_do (randint draws (5 * k) 0 (ht - 1)) (\<lambda>r.
     then_do (randint draws (5 * k + 1) 0 (wd - 1)) (\<lambda>c.
     then_do (py_index img r) (\<lambda>row.
     then_do (py_index row c) (\<lambda>pixel.
     then_do (randint draws (5 * k + 2) 0 255) (\<lambda>rd.
     then_do (randint draws (5 * k + 3) 0 255) (\<lambda>gr.
     then_do (randint draws (5 * k + 4) 0 255) (\<lambda>bl.
       Inr (img[nat r := row[nat c := mk_RGB rd gr bl (alpha pixel)]]))))))))"

fun scramble_loop :: "(nat \<Rightarrow> nat) \<Rightarrow> int \<Rightarrow> int \<Rightarrow> nat list \<Rightarrow> image \<Rightarrow> exn + image" where
  "scramble_loop draws ht wd [] img = Inr img"
| "scramble_loop draws ht wd (k # ks) img =
     then_do (scramble_step draws ht wd k img) (scramble_loop draws ht wd ks)"

definition scramble :: "(nat \<Rightarrow> nat) \<Rightarrow> image \<Rightarrow> int \<Rightarrow> exn + image" where
  "scramble draws img amount =
     then_do (py_index img 0) (\<lambda>first.
       scramble_loop draws (int (length img)) (int (length first)) [0..<nat amount] img)"

text \<open>
  The buffers that \<^verbatim>\<open>read_image\<close> produces: rectangular, every channel in \<open>0 .. 255\<close> (the
  decoder converts to RGBA), and, as for every Python list, fewer than \<open>2 ^ 63\<close> items.
\<close>

definition valid_pixel :: "RGB \<Rightarrow> bool" where
  "valid_pixel p =
     (0 \<le> red p \<and> red p \<le> 255 \<and> 0 \<le> green p \<and> green p \<le> 255 \<and>
      0 \<le> blue p \<and> blue p \<le> 255 \<and> 0 \<le> alpha p \<and> alpha p \<le> 255)"

definition valid_image :: "image \<Rightarrow> bool" where
  "valid_image b =
     (verify_image b \<and> height b < 2 ^ 63 \<and> width b < 2 ^ 63 \<and>
      list_all (list_all valid_pixel) b)"

text \<open>A correctly rounded square, one possible behaviour of \<^verbatim>\<open>pow(x, 2.0)\<close>.\<close>

definition pow2_rounded :: "real \<Rightarrow> real" where
  "pow2_rounded x = fl (x * x)"

section \<open>Auxiliary notions used in the proofs\<close>

text \<open>The transposed table of a rectangular image, and the image turned by 180 degrees.\<close>

definition transposed :: "image \<Rightarrow> image" where
  "transposed b = map (\<lambda>c. map (\<lambda>r. b ! r ! c) [0..<height b]) [0..<width b]"

definition turned :: "image \<Rightarrow> image" where
  "turned b = rev (map rev b)"

text \<open>The double \<^verbatim>\<open>math.sqrt(dr**2 + dc**2)\<close> for integers \<open>dr\<close> and \<open>dc\<close>.\<close>

definition dist :: "int \<Rightarrow> int \<Rightarrow> real" where
  "dist dr dc = fl (sqrt (fl (of_int (dr\<^sup>2 + dc\<^sup>2))))"

text \<open>
  The window of \<^verbatim>\<open>blur\<close> around a position: the positions of the buffer at most \<open>radius\<close>
  rows and \<open>radius\<close> columns away. \<open>channel_total ch b W\<close> adds a channel over a set of positions.
\<close>

definition window :: "image \<Rightarrow> int \<Rightarrow> nat \<Rightarrow> nat \<Rightarrow> (int \<times> int) set" where
  "window b radius r c =
     {(i, j). 0 \<le> i \<and> i < int (height b) \<and> 0 \<le> j \<and> j < int (width b)
              \<and> \<bar>i - int r\<bar> \<le> radius \<and> \<bar>j - int c\<bar> \<le> radius}"

definition channel_total :: "(RGB \<Rightarrow> int) \<Rightarrow> image \<Rightarrow> (int \<times> int) set \<Rightarrow> int" where
  "channel_total ch b W = (\<Sum>(i, j)\<in>W. ch (b ! nat i ! nat j))"

text \<open>
  The rounded average of a channel over a set of positions, as \<^verbatim>\<open>round(total / count)\<close>
  computes it, and the pixel made of the four averages over the window of a position.
\<close>

definition window_average :: "(RGB \<Rightarrow> int) \<Rightarrow> image \<Rightarrow> (int \<times> int) set \<Rightarrow> int" where
  "window_average ch b W =
     round_half_even (fl (of_int (channel_total ch b W) / of_int (int (card W))))"

definition box_pixel :: "image \<Rightarrow> int \<Rightarrow> nat \<Rightarrow> nat \<Rightarrow> RGB" where
  "box_pixel b radius r c =
     mk_RGB (window_average red b (window b radius r c))
            (window_average green b (window b radius r c))
            (window_average blue b (window b radius r c))
            (window_average alpha b (window b radius r c))"

text \<open>
  The shape invariant of the transforms: the result is a non-empty rectangular buffer of the
  same height and width, or, for \<^verbatim>\<open>transpose\<close> and \<^verbatim>\<open>rotate\<close>, of the two exchanged.
\<close>

definition same_shape :: "image \<Rightarrow> image \<Rightarrow> bool" where
  "same_shape b b' = (verify_image b' \<and> height b' = height b \<and> width b' = width b)"

definition swapped_shape :: "image \<Rightarrow> image \<Rightarrow> bool" where
  "swapped_shape b b' = (verify_image b' \<and> height b' = width b \<and> width b' = height b)"

section \<open>Shape lemmas\<close>

lemma verify_image_iff:
  "verify_image b \<longleftrightarrow> b \<noteq> [] \<and> 0 < width b \<and> (\<forall>row \<in> set b. length row = width b)"
  unfolding verify_image_def width_def list_all_iff by auto

lemma verify_image_nth:
  "verify_image b \<Longrightarrow> r < length b \<Longrightarrow> length (b ! r) = width b"
  unfolding verify_image_iff by simp

lemma verify_image_width_pos: "verify_image b \<Longrightarrow> 0 < width b"
  unfolding verify_image_iff by simp

lemma verify_image_height_pos: "verify_image b \<Longrightarrow> 0 < height b"
  unfolding verify_image_iff height_def by simp

lemma transpose_image_rect:
  assumes "verify_image b"
  shows "transpose_image b =
           Inr (map (\<lambda>c. map (\<lambda>r. b ! r ! c) [0..<height b]) [0..<width b])"
proof -
  from assms have ne: "b \<noteq> []" and w: "0 < width b"
    and all: "\<forall>row \<in> set b. length row = width b"
    unfolding verify_image_iff by auto
  from w have "hd b \<noteq> []" unfolding width_def by auto
  moreover from all have "\<not> list_ex (\<lambda>row. length row < length (hd b)) b"
    unfolding list_ex_iff width_def by auto
  ultimately show ?thesis
    using ne unfolding transpose_image_def height_def width_def Let_def by simp
qed


lemma verify_imageI:
  assumes "b \<noteq> []" and "0 < n" and "\<forall>row \<in> set b. length row = n"
  shows "verify_image b" and "width b = n"
proof -
  from assms(1) have "hd b \<in> set b" by simp
  with assms(3) show w: "width b = n" unfolding width_def by blast
  with assms show "verify_image b" unfolding verify_image_iff by simp
qed

lemma flip_shape:
  assumes "verify_image b"
  shows "verify_image (flip b v)" and "width (flip b v) = width b"
    and "height (flip b v) = height b"
proof -
  from assms have ne: "b \<noteq> []" and w: "0 < width b"
    and all: "\<forall>row \<in> set b. length row = width b"
    unfolding verify_image_iff by auto
  have ne': "flip b v \<noteq> []" using ne unfolding flip_def by simp
  have all': "\<forall>row \<in> set (flip b v). length row = width b"
    using all unfolding flip_def by auto
  show "verify_image (flip b v)" by (rule verify_imageI(1)[OF ne' w all'])
  show "width (flip b v) = width b" by (rule verify_imageI(2)[OF ne' w all'])
  show "height (flip b v) = height b" unfolding flip_def height_def by simp
qed


lemma transposed_height: "height (transposed b) = width b"
  unfolding transposed_def height_def by simp

lemma transposed_shape:
  assumes "verify_image b"
  shows "verify_image (transposed b)" and "width (transposed b) = height b"
proof -
  from assms have w: "0 < width b" and h: "0 < height b"
    by (simp_all add: verify_image_width_pos verify_image_height_pos)
  have ne': "transposed b \<noteq> []" using w unfolding transposed_def by simp
  have all': "\<forall>row \<in> set (transposed b). length row = height b"
    unfolding transposed_def by auto
  show "verify_image (transposed b)" by (rule verify_imageI(1)[OF ne' h all'])
  show "width (transposed b) = height b" by (rule verify_imageI(2)[OF ne' h all'])
qed

lemma transposed_nth:
  "c < width b \<Longrightarrow> r < height b \<Longrightarrow> transposed b ! c ! r = b ! r ! c"
  unfolding transposed_def by simp

lemma transpose_image_transposed:
  "verify_image b \<Longrightarrow> transpose_image b = Inr (transposed b)"
  unfolding transposed_def by (rule transpose_image_rect)

lemma image_eqI:
  assumes "verify_image a" and "verify_image b"
    and "height a = height b" and "width a = width b"
    and "\<And>r c. r < height b \<Longrightarrow> c < width b \<Longrightarrow> a ! r ! c = b ! r ! c"
  shows "a = b"
proof (rule nth_equalityI)
  show "length a = length b" using assms(3) unfolding height_def .
next
  fix r assume r: "r < length a"
  then have rb: "r < height b" using assms(3) unfolding height_def by simp
  have la: "length (a ! r) = width a" using assms(1) r by (rule verify_image_nth)
  have lb: "length (b ! r) = width b"
    using assms(2) rb unfolding height_def by (rule verify_image_nth)
  show "a ! r = b ! r"
  proof (rule nth_equalityI)
    show "length (a ! r) = length (b ! r)" using la lb assms(4) by simp
  next
    fix c assume "c < length (a ! r)"
    then have "c < width b" using la assms(4) by simp
    then show "a ! r ! c = b ! r ! c" using rb by (simp add: assms(5))
  qed
qed


lemma turned_shape:
  assumes "verify_image b"
  shows "verify_image (turned b)" and "width (turned b) = width b"
    and "height (turned b) = height b"
proof -
  have eq: "turned b = flip (flip b False) True" unfolding turned_def flip_def by simp
  show "verify_image (turned b)" unfolding eq by (intro flip_shape(1) assms)
  show "width (turned b) = width b" unfolding eq
    by (simp add: flip_shape(2)[OF flip_shape(1)] flip_shape(2) assms)
  show "height (turned b) = height b" unfolding eq
    by (simp add: flip_shape(3)[OF flip_shape(1)] flip_shape(3) assms)
qed

lemma turned_nth:
  assumes "verify_image b" and "r < height b" and "c < width b"
  shows "turned b ! r ! c = b ! (height b - 1 - r) ! (width b - 1 - c)"
proof -
  have r': "height b - 1 - r < length b" using assms(2) unfolding height_def by simp
  have "turned b ! r = rev (b ! (height b - 1 - r))"
    using assms(2) unfolding turned_def height_def
    by (simp add: rev_nth rev_map[symmetric])
  moreover have "length (b ! (height b - 1 - r)) = width b"
    using assms(1) r' by (rule verify_image_nth)
  ultimately show ?thesis using assms(3) by (simp add: rev_nth)
qed

lemma turned_turned: "turned (turned b) = b"
  unfolding turned_def by (simp add: rev_map comp_def)


lemma rotate_left_eq:
  "verify_image b \<Longrightarrow> rotate_image b False = Inr (flip (transposed b) True)"
  unfolding rotate_image_def by (simp add: transpose_image_transposed)

lemma rotate_right_eq:
  "verify_image b \<Longrightarrow> rotate_image b True = Inr (transposed (flip b True))"
  unfolding rotate_image_def by (simp add: transpose_image_transposed flip_shape(1))

lemma rotate_shape:
  assumes "verify_image b" and "rotate_image b v = Inr b'"
  shows "verify_image b'" and "height b' = width b" and "width b' = height b"
proof -
  have fs: "verify_image (flip b True)" by (rule flip_shape(1)[OF assms(1)])
  have ts: "verify_image (transposed b)" by (rule transposed_shape(1)[OF assms(1)])
  have b': "b' = (if v then transposed (flip b True) else flip (transposed b) True)"
    using assms(2) rotate_left_eq[OF assms(1)] rotate_right_eq[OF assms(1)]
    by (cases v) simp_all
  show "verify_image b'" unfolding b'
    by (simp add: transposed_shape(1)[OF fs] flip_shape(1)[OF ts])
  show "height b' = width b" unfolding b'
    by (simp add: transposed_height flip_shape(2)[OF assms(1)] flip_shape(3)[OF ts])
  show "width b' = height b" unfolding b'
    by (simp add: transposed_shape(2)[OF fs] flip_shape(3)[OF assms(1)]
        flip_shape(2)[OF ts] transposed_shape(2)[OF assms(1)])
qed

lemma rotate_nth:
  assumes "verify_image b" and "rotate_image b v = Inr b'"
    and "r < width b" and "c < height b"
  shows "b' ! r ! c = (if v then b ! (height b - 1 - c) ! r else b ! c ! (width b - 1 - r))"
proof (cases v)
  case True
  have fs: "verify_image (flip b True)" by (rule flip_shape(1)[OF assms(1)])
  have b': "b' = transposed (flip b True)"
    using assms(2) rotate_right_eq[OF assms(1)] True by simp
  have "b' ! r ! c = flip b True ! c ! r" unfolding b'
    by (rule transposed_nth)
       (simp_all add: flip_shape(2)[OF assms(1)] flip_shape(3)[OF assms(1)] assms(3,4))
  also have "flip b True ! c = b ! (height b - 1 - c)"
    using assms(4) unfolding flip_def height_def by (simp add: rev_nth)
  finally show ?thesis using True by simp
next
  case False
  have ts: "verify_image (transposed b)" by (rule transposed_shape(1)[OF assms(1)])
  have b': "b' = flip (transposed b) True"
    using assms(2) rotate_left_eq[OF assms(1)] False by simp
  have "b' ! r = transposed b ! (width b - 1 - r)"
    unfolding b' flip_def using assms(3) transposed_height[of b]
    by (simp add: rev_nth height_def)
  also have "\<dots> ! c = b ! c ! (width b - 1 - r)"
    by (rule transposed_nth) (use assms(3,4) in simp_all)
  finally show ?thesis using False by simp
qed

lemma rotate_defined:
  "verify_image b \<Longrightarrow> \<exists>b'. rotate_image b v = Inr b'"
  using rotate_left_eq[of b] rotate_right_eq[of b] by (cases v) simp_all

lemma rotate_twice:
  assumes "verify_image b"
  shows "then_do (rotate_image b v) (\<lambda>x. rotate_image x v) = Inr (turned b)"
proof -
  obtain b1 where b1: "rotate_image b v = Inr b1"
    using rotate_defined[OF assms] by blast
  note s1 = rotate_shape[OF assms b1]
  obtain b2 where b2: "rotate_image b1 v = Inr b2"
    using rotate_defined[OF s1(1)] by blast
  note s2 = rotate_shape[OF s1(1) b2]
  have "b2 = turned b"
  proof (rule image_eqI)
    show "verify_image b2" by (rule s2(1))
    show "verify_image (turned b)" by (rule turned_shape(1)[OF assms])
    show "height b2 = height (turned b)"
      by (simp add: s2(2) s1(3) turned_shape(3)[OF assms])
    show "width b2 = width (turned b)"
      by (simp add: s2(3) s1(2) turned_shape(2)[OF assms])
  next
    fix r c assume "r < height (turned b)" and "c < width (turned b)"
    then have r: "r < height b" and c: "c < width b"
      by (simp_all add: turned_shape(2,3)[OF assms])
    have "b2 ! r ! c =
            (if v then b1 ! (height b1 - 1 - c) ! r else b1 ! c ! (width b1 - 1 - r))"
      by (rule rotate_nth[OF s1(1) b2]) (simp_all add: s1 r c)
    also have "\<dots> = b ! (height b - 1 - r) ! (width b - 1 - c)"
    proof (cases v)
      case True
      have "b1 ! (width b - 1 - c) ! r =
              (if v then b ! (height b - 1 - r) ! (width b - 1 - c)
               else b ! r ! (width b - 1 - (width b - 1 - c)))"
        by (rule rotate_nth[OF assms b1]) (use r c in simp_all)
      then show ?thesis using True by (simp add: s1)
    next
      case False
      have "b1 ! c ! (height b - 1 - r) =
              (if v then b ! (height b - 1 - (height b - 1 - r)) ! c
               else b ! (height b - 1 - r) ! (width b - 1 - c))"
        by (rule rotate_nth[OF assms b1]) (use r c in simp_all)
      then show ?thesis using False by (simp add: s1)
    qed
    also have "\<dots> = turned b ! r ! c"
      by (rule turned_nth[symmetric, OF assms r c])
    finally show "b2 ! r ! c = turned b ! r ! c" .
  qed
  then show ?thesis using b1 b2 unfolding then_do_def by simp
qed

section \<open>Flip and rotate\<close>

text \<open>
  Claim C8. Applying \<^verbatim>\<open>flip\<close> twice with the same \<^verbatim>\<open>vertical\<close> restores the buffer;
  with \<^verbatim>\<open>vertical=False\<close> it reverses the pixels within each row, with
  \<^verbatim>\<open>vertical=True\<close> it reverses the order of the rows. This holds for every buffer,
  rectangular or not.
\<close>

theorem flip_twice:
  "flip (flip img v) v = img \<and> flip img False = map rev img \<and> flip img True = rev img"
  unfolding flip_def by (simp add: comp_def)

text \<open>
  Claim C7. On a non-empty rectangular buffer, four successive calls of \<^verbatim>\<open>rotate\<close> with
  the same \<^verbatim>\<open>right\<close> all return and restore the original buffer (dimensions and
  pixels); a left rotation is transpose followed by a vertical flip, a right rotation is a
  vertical flip followed by transpose.
\<close>

theorem rotate_four_times:
  assumes "verify_image b"
  shows "then_do (then_do (then_do (rotate_image b v) (\<lambda>x. rotate_image x v))
                    (\<lambda>x. rotate_image x v)) (\<lambda>x. rotate_image x v) = Inr b
       \<and> rotate_image b False = then_do (transpose_image b) (\<lambda>t. Inr (flip t True))
       \<and> rotate_image b True = then_do (Inr (flip b True)) transpose_image"
proof -
  have t: "verify_image (turned b)" by (rule turned_shape(1)[OF assms])
  have assoc: "then_do (then_do (then_do (rotate_image b v) (\<lambda>x. rotate_image x v))
                    (\<lambda>x. rotate_image x v)) (\<lambda>x. rotate_image x v)
      = then_do (then_do (rotate_image b v) (\<lambda>x. rotate_image x v))
          (\<lambda>y. then_do (rotate_image y v) (\<lambda>x. rotate_image x v))"
    unfolding then_do_def by (simp split: sum.splits)
  have four: "then_do (then_do (then_do (rotate_image b v) (\<lambda>x. rotate_image x v))
                    (\<lambda>x. rotate_image x v)) (\<lambda>x. rotate_image x v) = Inr b"
    unfolding assoc rotate_twice[OF assms]
    by (simp add: then_do_def rotate_twice[OF t, unfolded then_do_def] turned_turned)
  have left: "rotate_image b False = then_do (transpose_image b) (\<lambda>t. Inr (flip t True))"
    unfolding rotate_image_def then_do_def by simp
  have right: "rotate_image b True = then_do (Inr (flip b True)) transpose_image"
    unfolding rotate_image_def then_do_def by simp
  from four left right show ?thesis by blast
qed

theorem rotate_four_times_witness:
  "verify_image [[mk_RGB 1 2 3 255, mk_RGB 4 5 6 255, mk_RGB 7 8 9 255],
                 [mk_RGB 10 11 12 255, mk_RGB 13 14 15 255, mk_RGB 16 17 18 255]]
   \<and> then_do (then_do (then_do
        (rotate_image [[mk_RGB 1 2 3 255, mk_RGB 4 5 6 255, mk_RGB 7 8 9 255],
                       [mk_RGB 10 11 12 255, mk_RGB 13 14 15 255, mk_RGB 16 17 18 255]] False)
        (\<lambda>x. rotate_image x False)) (\<lambda>x. rotate_image x False)) (\<lambda>x. rotate_image x False)
      = Inr [[mk_RGB 1 2 3 255, mk_RGB 4 5 6 255, mk_RGB 7 8 9 255],
             [mk_RGB 10 11 12 255, mk_RGB 13 14 15 255, mk_RGB 16 17 18 255]]"
proof -
  have h: "verify_image [[mk_RGB 1 2 3 255, mk_RGB 4 5 6 255, mk_RGB 7 8 9 255],
                 [mk_RGB 10 11 12 255, mk_RGB 13 14 15 255, mk_RGB 16 17 18 255]]"
    by (simp add: verify_image_def)
  show ?thesis using h rotate_four_times[OF h, of False] by blast
qed

section \<open>The dispatcher\<close>

subsection \<open>Coercion\<close>

lemma underscores_ok_none:
  "prev \<noteq> CHR ''_'' \<Longrightarrow> CHR ''_'' \<notin> set s \<Longrightarrow> underscores_ok prev s"
  by (induction s arbitrary: prev) auto

lemma digit_not_special:
  assumes "ascii_digit c"
  shows "c \<noteq> CHR ''_''" and "\<not> isspace_char c" and "to_lower c = c"
    and "c \<noteq> CHR ''i''" and "c \<noteq> CHR ''n''" and "c \<noteq> CHR ''+''" and "c \<noteq> CHR ''-''"
  using assms unfolding ascii_digit_def isspace_char_def to_lower_def by auto

lemma digits_takeWhile: "list_all ascii_digit ds \<Longrightarrow> takeWhile ascii_digit ds = ds"
  by (simp add: list_all_iff)

lemma digits_dropWhile: "list_all ascii_digit ds \<Longrightarrow> dropWhile ascii_digit ds = []"
  by (simp add: list_all_iff)

lemma decimal_ok_digits:
  assumes "ds \<noteq> []" and "list_all ascii_digit ds"
  shows "decimal_ok ds"
  unfolding decimal_ok_def exponent_ok_def Let_def
    digits_takeWhile[OF assms(2)] digits_dropWhile[OF assms(2)]
  using assms(1) by simp

lemma dropWhile_hd: "s \<noteq> [] \<Longrightarrow> \<not> P (hd s) \<Longrightarrow> dropWhile P s = s"
  by (cases s) simp_all

lemma strip_id:
  assumes "s \<noteq> []" and "\<not> isspace_char (hd s)" and "\<not> isspace_char (last s)"
  shows "strip s = s"
proof -
  have "dropWhile isspace_char (rev s) = rev s"
    by (rule dropWhile_hd) (use assms in \<open>simp_all add: hd_rev\<close>)
  moreover have "dropWhile isspace_char s = s"
    by (rule dropWhile_hd) (use assms in simp_all)
  ultimately show ?thesis unfolding strip_def by simp
qed

lemma strip_neg_digits:
  assumes "ds \<noteq> []" and "list_all ascii_digit ds"
  shows "strip (CHR ''-'' # ds) = CHR ''-'' # ds"
proof (rule strip_id)
  show "CHR ''-'' # ds \<noteq> []" by simp
  show "\<not> isspace_char (hd (CHR ''-'' # ds))" by (simp add: isspace_char_def)
  have "ascii_digit (last ds)" using assms by (simp add: list_all_iff)
  then show "\<not> isspace_char (last (CHR ''-'' # ds))"
    using assms(1) by (simp add: digit_not_special(2))
qed

lemma digits_no_underscore:
  "list_all ascii_digit ds \<Longrightarrow> CHR ''_'' \<notin> set ds"
  using digit_not_special(1) by (auto simp: list_all_iff)

lemma float_ok_neg_digits:
  assumes "ds \<noteq> []" and "list_all ascii_digit ds"
  shows "float_ok (CHR ''-'' # ds)"
proof -
  have no_us: "CHR ''_'' \<notin> set (CHR ''-'' # ds)"
    using digits_no_underscore[OF assms(2)] by simp
  then have filt: "filter (\<lambda>c. c \<noteq> CHR ''_'') (CHR ''-'' # ds) = CHR ''-'' # ds"
    unfolding filter_id_conv by blast
  have us: "underscores_ok (CHR 0x00) (CHR ''-'' # ds)"
    by (rule underscores_ok_none[OF _ no_us]) simp
  have "sign_stripped (strip (filter (\<lambda>c. c \<noteq> CHR ''_'') (CHR ''-'' # ds))) = ds"
    unfolding filt strip_neg_digits[OF assms] sign_stripped_def by simp
  then show ?thesis unfolding float_ok_def Let_def
    using us decimal_ok_digits[OF assms] by simp
qed

lemma to_ascii_str: "to_ascii (str s) = s"
  unfolding str_def by (induction s) simp_all

lemma str_eq_iff: "str s = str t \<longleftrightarrow> s = t"
  unfolding str_def by (simp add: inj_map_eq_map inj_on_def)

lemma isdigit_str: "isdigit (str s) \<longleftrightarrow> ascii_digits s"
  unfolding isdigit_def ascii_digits_def str_def by (simp add: list_all_iff)

lemma not_isdigit_neg: "\<not> isdigit (Ascii CHR ''-'' # ds)"
  by (simp add: isdigit_def ascii_digit_def)

text \<open>
  The consequence that claim C1 draws holds: a minus sign followed by ASCII digits is a
  float and never an integer.
\<close>

lemma coerce_neg_digits:
  assumes "ds \<noteq> []" and "list_all ascii_digit ds"
  shows "coerce (str (CHR ''-'' # ds)) = Inr (PyFloat (str (CHR ''-'' # ds)))"
proof -
  have "str (CHR ''-'' # ds) \<notin> set [str ''True'', str ''False'']"
    by (simp add: str_eq_iff)
  moreover have "\<not> isdigit (str (CHR ''-'' # ds))"
    using not_isdigit_neg[of "str ds"] by (simp add: str_def)
  moreover have "float_ok (to_ascii (str (CHR ''-'' # ds)))"
    unfolding to_ascii_str by (rule float_ok_neg_digits[OF assms])
  ultimately show ?thesis unfolding coerce_def by simp
qed

text \<open>The order of the coercion, and what \<^verbatim>\<open>int\<close> does with a string of digits.\<close>

lemma coerce_chain:
  "coerce v =
     (if v = str ''True'' then Inr (PyBool True)
      else if v = str ''False'' then Inr (PyBool False)
      else if v \<noteq> [] \<and> list_all isdigit_char v
        then (if list_all (\<lambda>c. decimal_value c \<noteq> None) v \<and> length v \<le> 4300
              then Inr (PyInt (foldl (\<lambda>n c. 10 * n + the (decimal_value c)) 0 v))
              else Inl ValueError)
      else if float_ok (to_ascii v) then Inr (PyFloat v)
      else Inr (PyStr v))"
proof -
  have f: "foldl (\<lambda>n c. 10 * n + (case decimal_value c of Some d \<Rightarrow> d | None \<Rightarrow> 0)) a v
         = foldl (\<lambda>n c. 10 * n + the (decimal_value c)) a v"
    if "list_all (\<lambda>c. decimal_value c \<noteq> None) v" for a
    using that by (induction v arbitrary: a) auto
  have e: "list_ex (\<lambda>c. decimal_value c = None) v
             \<longleftrightarrow> \<not> list_all (\<lambda>c. decimal_value c \<noteq> None) v"
    by (simp add: list_ex_iff list_all_iff)
  show ?thesis
    unfolding coerce_def isdigit_def int_of_digits_def int_max_str_digits_def e
    using f[of 0] by (auto simp: str_eq_iff then_do_def)
qed

lemma coerce_digits_long:
  assumes "isdigit v" and "4300 < length v"
  shows "coerce v = Inl ValueError"
proof -
  have "length (str ''True'') = 4" and "length (str ''False'') = 5" by (simp_all add: str_def)
  then have "v \<noteq> str ''True''" and "v \<noteq> str ''False''" using assms(2) by auto
  then show ?thesis
    unfolding coerce_def int_of_digits_def int_max_str_digits_def then_do_def
    using assms by simp
qed

lemma coerce_other_digit:
  assumes "isdigit v" and "Uni n Digit \<in> set v"
  shows "coerce v = Inl ValueError"
proof -
  have "Uni n Digit \<notin> set (str s)" for s unfolding str_def by auto
  then have "v \<noteq> str ''True''" and "v \<noteq> str ''False''" using assms(2) by auto
  moreover have "list_ex (\<lambda>c. decimal_value c = None) v"
    unfolding list_ex_iff using assms(2) by (intro bexI[of _ "Uni n Digit"]) simp_all
  ultimately show ?thesis
    unfolding coerce_def int_of_digits_def then_do_def using assms(1) by simp
qed

subsection \<open>The option loop\<close>

lemma option_token:
  assumes "Ascii CHR ''='' \<notin> set k"
  shows "is_option (str ''--'' @ k @ str ''='' @ v)"
    and "option_key (str ''--'' @ k @ str ''='' @ v) = k"
    and "option_value (str ''--'' @ k @ str ''='' @ v) = coerce v"
proof -
  have tw: "takeWhile (\<lambda>x. x \<noteq> Ascii CHR ''='') (k @ Ascii CHR ''='' # v) = k"
    using assms by (induction k) auto
  have f: "find_char (str ''--'' @ k @ str ''='' @ v) (Ascii CHR ''='') = length k + 2"
    unfolding find_char_def str_def by (simp add: tw)
  show "is_option (str ''--'' @ k @ str ''='' @ v)"
    unfolding is_option_def startswith_def str_def by simp
  show "option_key (str ''--'' @ k @ str ''='' @ v) = k"
    unfolding option_key_def f by (simp add: str_def)
  show "option_value (str ''--'' @ k @ str ''='' @ v) = coerce v"
    unfolding option_value_def f by (simp add: str_def)
qed

lemma extract_loop_raises:
  assumes "is_option item" and "option_value item = Inl e"
    and "\<forall>i \<in> set before. \<not> is_option i"
  shows "extract_loop opts (before @ item # rest) = Inl e"
  using assms(3) by (induction before) (simp_all add: assms(1,2) then_do_def)

lemma parse_args_options:
  "parse_args plugins argv = Inr p \<Longrightarrow> res_options p = Some opts
     \<Longrightarrow> \<exists>args. extract_options argv = Inr (opts, args)"
  unfolding parse_args_def then_do_def
  by (auto split: prod.splits if_splits sum.splits lookup.splits)

lemma argv_example:
  "extract_options [str ''pictool.py'', str ''blur'', str ''--radius=-3'', str ''in.png''] =
     Inr ([(str ''radius'', PyFloat (str ''-3''))],
          [str ''pictool.py'', str ''blur'', str ''in.png''])"
  by code_simp

lemma parse_example:
  "parse_args plugins2 [str ''pictool.py'', str ''blur'', str ''--radius=-3'', str ''in.png''] =
     Inr \<lparr>res_error = None, res_command = Some (str ''blur''),
          res_options = Some [(str ''radius'', PyFloat (str ''-3''))],
          res_input = Some (str ''in.png''), res_output = None\<rparr>"
  by code_simp

text \<open>
  The empty value: every character of the empty string is a digit, and it is neither
  \<^verbatim>\<open>True\<close> nor \<^verbatim>\<open>False\<close>, yet \<^verbatim>\<open>''.isdigit()\<close> is false and \<^verbatim>\<open>float('')\<close> raises, so
  \<^verbatim>\<open>--radius=\<close> stores the empty string. A decimal digit of another script is a digit for
  \<^verbatim>\<open>isdigit\<close> and \<^verbatim>\<open>int\<close>: the value U+0663 becomes the integer 3.
\<close>

lemma coerce_empty_value:
  "coerce [] = Inr (PyStr [])
   \<and> extract_options [str ''pictool.py'', str ''blur'', str ''--radius='', str ''in.png''] =
        Inr ([(str ''radius'', PyStr [])], [str ''pictool.py'', str ''blur'', str ''in.png''])"
  by code_simp

lemma coerce_arabic_digit: "coerce [Uni 0x663 (Decimal 3)] = Inr (PyInt 3)"
  by code_simp

text \<open>
  Claim C1. The source calls \<^verbatim>\<open>int(value)\<close> outside the \<^verbatim>\<open>try\<close> that surrounds
  \<^verbatim>\<open>float(value)\<close>. The superscript two U+00B2 is a digit for \<^verbatim>\<open>isdigit\<close> but not a
  decimal one, so \<^verbatim>\<open>int\<close> raises ValueError on the token \<^verbatim>\<open>--radius=\<close> followed by that
  character: the exception leaves \<^verbatim>\<open>extract_options\<close>, \<^verbatim>\<open>parse_args\<close> and \<^verbatim>\<open>main\<close>, and the
  value is neither tried as a float nor kept as a string. A value of 4301 ASCII digits,
  which the claim sends to an integer, ends the same way.
\<close>

theorem digit_value_raises:
  "isdigit [Uni 0xB2 Digit]
   \<and> coerce [Uni 0xB2 Digit] = Inl ValueError
   \<and> extract_options [str ''pictool.py'', str ''blur'', str ''--radius='' @ [Uni 0xB2 Digit],
        str ''in.png'', str ''out.png''] = Inl ValueError
   \<and> main plugins2 read_image call
        [str ''pictool.py'', str ''blur'', str ''--radius='' @ [Uni 0xB2 Digit],
         str ''in.png'', str ''out.png''] = Inl ValueError
   \<and> isdigit (replicate 4301 (Ascii CHR ''7''))
   \<and> coerce (replicate 4301 (Ascii CHR ''7'')) = Inl ValueError"
proof -
  have d: "isdigit [Uni 0xB2 Digit]" by (simp add: isdigit_def)
  have c: "coerce [Uni 0xB2 Digit] = Inl ValueError"
    by (rule coerce_other_digit[OF d]) simp
  have e: "extract_options [str ''pictool.py'', str ''blur'',
             str ''--radius='' @ [Uni 0xB2 Digit], str ''in.png'', str ''out.png'']
           = Inl ValueError"
    by code_simp
  have m: "main plugins2 read_image call
        [str ''pictool.py'', str ''blur'', str ''--radius='' @ [Uni 0xB2 Digit],
         str ''in.png'', str ''out.png''] = Inl ValueError"
    unfolding main_def parse_args_def e then_do_def by simp
  have l: "isdigit (replicate 4301 (Ascii CHR ''7''))"
    by (simp add: isdigit_def list_all_iff ascii_digit_def)
  have "coerce (replicate 4301 (Ascii CHR ''7'')) = Inl ValueError"
    by (rule coerce_digits_long[OF l]) simp
  with d c e m l show ?thesis by (intro conjI)
qed

subsection \<open>Command lookup\<close>

lemma lookup_command_unknown:
  "plugins cmd = None \<Longrightarrow> lookup_command plugins cmd opts = Inr (Error (Unrecognized_command cmd))"
  unfolding lookup_command_def by simp

lemma lookup_command_malformed:
  "plugins cmd = Some (Function param dsize) \<Longrightarrow> length param \<noteq> dsize + 1
     \<Longrightarrow> lookup_command plugins cmd opts = Inr (Error (No_default_values cmd))"
  unfolding lookup_command_def by simp

lemma lookup_command_badargs:
  assumes "plugins cmd = Some (Function param dsize)" and "length param = dsize + 1"
    and "filter (\<lambda>key. key \<notin> set param) (map fst opts) \<noteq> []"
  shows "lookup_command plugins cmd opts =
           Inr (Error (Unrecognized_options cmd
                 (join (str '', '') (map (\<lambda>x. str ''--'' @ x)
                    (filter (\<lambda>key. key \<notin> set param) (map fst opts))))))"
  unfolding lookup_command_def Let_def assms(1)
  using assms(2,3) by (simp only: option.case attr.case if_False if_True simp_thms)

lemma lookup_command_accepts:
  assumes "plugins cmd = Some (Function param dsize)" and "length param = dsize + 1"
    and "set (map fst opts) \<subseteq> set param"
  shows "lookup_command plugins cmd opts = Inr (Command cmd)"
proof -
  have "filter (\<lambda>key. key \<notin> set param) (map fst opts) = []"
    using assms(3) by (auto simp: filter_empty_conv)
  then show ?thesis
    using assms(1,2) unfolding lookup_command_def by (simp add: Let_def)
qed

lemma lookup_command_Command:
  assumes "lookup_command plugins cmd opts = Inr (Command f)"
  shows "f = cmd \<and> (\<exists>param dsize. plugins cmd = Some (Function param dsize))"
  using assms unfolding lookup_command_def
  by (auto simp: Let_def split: option.splits attr.splits if_splits)

lemma plugins2_functions:
  assumes "plugins2 cmd = Some (Function param dsize)"
  shows "cmd \<in> set registry"
proof -
  have "(cmd, Function param dsize) \<in> set plugins2_attrs"
    using assms unfolding plugins2_def by (rule map_of_SomeD)
  then show ?thesis unfolding plugins2_attrs_def registry_def by auto
qed

lemma lookup_command_registry:
  "lookup_command plugins2 cmd opts = Inr (Command f) \<Longrightarrow> f = cmd \<and> cmd \<in> set registry"
  using lookup_command_Command plugins2_functions by blast

lemma parse_args_lookup:
  assumes "extract_options argv = Inr (opts, args)" and "length args = 3 \<or> length args = 4"
    and "lookup_command plugins (args ! 1) opts = Inr (Error m)"
  shows "main plugins read_image call argv = Inr [Print m]"
proof -
  show ?thesis
    unfolding main_def parse_args_def then_do_def using assms by auto
qed

text \<open>
  Claim C4. A command whose descriptor does not have exactly one parameter more than
  defaults (two parameters without defaults, for instance) is refused with the message
  that names it; \<^verbatim>\<open>main\<close> prints that message and neither reads the image nor calls a
  transform.
\<close>

theorem malformed_plugin:
  assumes "extract_options argv = Inr (opts, args)" and "length args = 3 \<or> length args = 4"
    and "plugins (args ! 1) = Some (Function param dsize)"
    and "length param \<noteq> dsize + 1"
  shows "lookup_command plugins (args ! 1) opts = Inr (Error (No_default_values (args ! 1)))
       \<and> main plugins read_image call argv = Inr [Print (No_default_values (args ! 1))]"
proof -
  have l: "lookup_command plugins (args ! 1) opts =
             Inr (Error (No_default_values (args ! 1)))"
    by (rule lookup_command_malformed[of plugins "args ! 1" param dsize opts, OF assms(3,4)])
  with parse_args_lookup[OF assms(1,2) l] show ?thesis by simp
qed

theorem malformed_plugin_witness:
  "extract_options [str ''pictool.py'', str ''tint'', str ''in.png'', str ''out.png''] =
     Inr ([], [str ''pictool.py'', str ''tint'', str ''in.png'', str ''out.png''])
   \<and> (plugins2(str ''tint'' \<mapsto> Function [str ''image'', str ''level''] 0))
        ([str ''pictool.py'', str ''tint'', str ''in.png'', str ''out.png''] ! 1)
      = Some (Function [str ''image'', str ''level''] 0)
   \<and> length [str ''image'', str ''level''] \<noteq> (0::nat) + 1
   \<and> main (plugins2(str ''tint'' \<mapsto> Function [str ''image'', str ''level''] 0))
        (\<lambda>file. Some [[mk_RGB 1 2 3 255]]) (\<lambda>f opts b. Inr (b, True))
        [str ''pictool.py'', str ''tint'', str ''in.png'', str ''out.png'']
      = Inr [Print (No_default_values (str ''tint''))]"
proof -
  have h1: "extract_options [str ''pictool.py'', str ''tint'', str ''in.png'', str ''out.png''] =
     Inr ([], [str ''pictool.py'', str ''tint'', str ''in.png'', str ''out.png''])" by code_simp
  have h2: "length [str ''pictool.py'', str ''tint'', str ''in.png'', str ''out.png''] = 3
      \<or> length [str ''pictool.py'', str ''tint'', str ''in.png'', str ''out.png''] = 4" by simp
  have h3: "(plugins2(str ''tint'' \<mapsto> Function [str ''image'', str ''level''] 0))
        ([str ''pictool.py'', str ''tint'', str ''in.png'', str ''out.png''] ! 1)
      = Some (Function [str ''image'', str ''level''] 0)" by simp
  have h4: "length [str ''image'', str ''level''] \<noteq> (0::nat) + 1" by simp
  from malformed_plugin[where plugins = "plugins2(str ''tint'' \<mapsto> Function [str ''image'', str ''level''] 0)"
      and read_image = "\<lambda>file. Some [[mk_RGB 1 2 3 255]]"
      and call = "\<lambda>f opts b. Inr (b, True)", OF h1 h2 h3 h4] h1 h3 h4
  show ?thesis by simp
qed

text \<open>
  Claim C2. The name \<^verbatim>\<open>math\<close> is not a transform, yet \<^verbatim>\<open>hasattr(plugins2, 'math')\<close>
  holds because the module imports \<^verbatim>\<open>math\<close>; reading \<^verbatim>\<open>__code__\<close> of the module object
  raises AttributeError, so the run ends with that exception and no
  \<^verbatim>\<open>unrecognized command\<close> message is printed.
\<close>

theorem lookup_imported_name:
  "lookup_command plugins2 (str ''math'') [] = Inl AttributeError
   \<and> main plugins2 read_image call
        [str ''pictool.py'', str ''math'', str ''in.png'', str ''out.png'']
       = Inl AttributeError"
proof -
  have a: "plugins2 (str ''math'') = Some Other" by code_simp
  have e: "extract_options [str ''pictool.py'', str ''math'', str ''in.png'', str ''out.png''] =
     Inr ([], [str ''pictool.py'', str ''math'', str ''in.png'', str ''out.png''])" by code_simp
  have l: "lookup_command plugins2 (str ''math'') [] = Inl AttributeError"
    unfolding lookup_command_def a by simp
  show ?thesis unfolding main_def parse_args_def e then_do_def using l by simp
qed

text \<open>
  Claim C3. The test \<^verbatim>\<open>key not in param\<close> compares against all parameter names, the
  buffer parameter \<^verbatim>\<open>image\<close> included, so \<^verbatim>\<open>--image=5\<close> is accepted for \<^verbatim>\<open>dered\<close>
  although no non-buffer parameter has that name.
\<close>

theorem buffer_key_accepted:
  "parse_args plugins2
     [str ''pictool.py'', str ''dered'', str ''--image=5'', str ''in.png'', str ''out.png''] =
     Inr \<lparr>res_error = None, res_command = Some (str ''dered''),
          res_options = Some [(str ''image'', PyInt 5)],
          res_input = Some (str ''in.png''), res_output = Some (str ''out.png'')\<rparr>"
  by code_simp

lemma radius_refused:
  "parse_args plugins2
     [str ''pictool.py'', str ''dered'', str ''--radius=5'', str ''--size=2'', str ''in.png'',
      str ''out.png''] =
     Inr \<lparr>res_error = Some (Unrecognized_options (str ''dered'') (str ''--radius, --size'')),
          res_command = None, res_options = None,
          res_input = Some (str ''in.png''), res_output = Some (str ''out.png'')\<rparr>"
  by code_simp

section \<open>Floating-point rounding\<close>

subsection \<open>Rounding to an integer\<close>

lemma round_half_even_of_int [simp]: "round_half_even (of_int n) = n"
  unfolding round_half_even_def by simp

lemma round_half_even_close: "\<bar>of_int (round_half_even x) - x\<bar> \<le> 1 / 2"
  unfolding round_half_even_def Let_def by (auto simp: abs_le_iff)

lemma round_half_even_mono:
  assumes "x \<le> y" shows "round_half_even x \<le> round_half_even y"
proof (cases "\<lfloor>x\<rfloor> = \<lfloor>y\<rfloor>")
  case True
  then show ?thesis using assms unfolding round_half_even_def Let_def by auto
next
  case False
  then have "\<lfloor>x\<rfloor> + 1 \<le> \<lfloor>y\<rfloor>" using assms floor_mono[OF assms] by linarith
  moreover have "round_half_even x \<le> \<lfloor>x\<rfloor> + 1"
    unfolding round_half_even_def Let_def by auto
  moreover have "\<lfloor>y\<rfloor> \<le> round_half_even y"
    unfolding round_half_even_def Let_def by auto
  ultimately show ?thesis by linarith
qed

lemma round_half_even_le: "x \<le> of_int n \<Longrightarrow> round_half_even x \<le> n"
  using round_half_even_mono[of x "of_int n"] by simp

lemma round_half_even_ge: "of_int n \<le> x \<Longrightarrow> n \<le> round_half_even x"
  using round_half_even_mono[of "of_int n" x] by simp

lemma round_half_even_minus: "round_half_even (- x) = - round_half_even x"
proof (cases "x \<in> \<int>")
  case True
  then obtain n where "x = of_int n" by (auto elim: Ints_cases)
  then show ?thesis by (simp flip: of_int_minus)
next
  case False
  then have f: "\<lfloor>- x\<rfloor> = - \<lfloor>x\<rfloor> - 1" by (simp add: floor_minus ceiling_altdef Ints_def)
    (metis Ints_of_int False)
  have d: "- x - of_int (- \<lfloor>x\<rfloor> - 1) = 1 - (x - of_int \<lfloor>x\<rfloor>)" by simp
  show ?thesis unfolding round_half_even_def Let_def f d by (auto simp: algebra_simps)
qed


subsection \<open>Powers of two\<close>

lemma two_powi_pos [simp]: "0 < (2::real) powi k"
  by (simp add: zero_less_power_int)

lemma two_powi_add: "(2::real) powi (a + b) = 2 powi a * 2 powi b"
  by (simp add: power_int_add)

lemma two_powi_split:
  assumes "u \<le> k"
  shows "(2::real) powi k = of_int (2 ^ nat (k - u)) * 2 powi u"
proof -
  have "(2::real) powi k = 2 powi ((k - u) + u)" by simp
  also have "\<dots> = 2 powi (k - u) * 2 powi u" by (rule two_powi_add)
  also have "(2::real) powi (k - u) = 2 ^ nat (k - u)"
    using assms by (simp add: power_int_def)
  finally show ?thesis by simp
qed

lemma two_powi_le: "a \<le> b \<Longrightarrow> (2::real) powi a \<le> 2 powi b"
  by (rule power_int_increasing) simp_all

lemma two_powi_less_cancel: "(2::real) powi a < 2 powi b \<Longrightarrow> a < b"
  using two_powi_le[of b a] by (cases "a < b") auto

lemma floor_log2_bounds:
  assumes "x \<noteq> 0"
  shows "2 powi \<lfloor>log 2 \<bar>x\<bar>\<rfloor> \<le> \<bar>x\<bar>" and "\<bar>x\<bar> < 2 powi (\<lfloor>log 2 \<bar>x\<bar>\<rfloor> + 1)"
proof -
  have pos: "0 < \<bar>x\<bar>" using assms by simp
  have eq: "(2::real) powr (of_int n) = 2 powi n" for n
    by (rule powr_real_of_int') simp_all
  have "of_int \<lfloor>log 2 \<bar>x\<bar>\<rfloor> \<le> log 2 \<bar>x\<bar>" by simp
  then have "2 powr (of_int \<lfloor>log 2 \<bar>x\<bar>\<rfloor>) \<le> \<bar>x\<bar>"
    using pos by (simp only: le_log_iff)
  then show "2 powi \<lfloor>log 2 \<bar>x\<bar>\<rfloor> \<le> \<bar>x\<bar>" by (simp only: eq)
  have "log 2 \<bar>x\<bar> < of_int (\<lfloor>log 2 \<bar>x\<bar>\<rfloor> + 1)" by linarith
  then have "\<bar>x\<bar> < 2 powr (of_int (\<lfloor>log 2 \<bar>x\<bar>\<rfloor> + 1))"
    using pos by (simp only: log_less_iff)
  then show "\<bar>x\<bar> < 2 powi (\<lfloor>log 2 \<bar>x\<bar>\<rfloor> + 1)" by (simp only: eq)
qed

lemma floor_log2_le:
  assumes "x \<noteq> 0" and "\<bar>x\<bar> < 2 powi k"
  shows "\<lfloor>log 2 \<bar>x\<bar>\<rfloor> < k"
  using floor_log2_bounds(1)[OF assms(1)] assms(2) two_powi_less_cancel
  by (meson le_less_trans)

lemma floor_log2_ge:
  assumes "2 powi k \<le> \<bar>x\<bar>"
  shows "k \<le> \<lfloor>log 2 \<bar>x\<bar>\<rfloor>"
proof -
  have "0 < \<bar>x\<bar>" using assms two_powi_pos[of k] by linarith
  then have "x \<noteq> 0" by simp
  from floor_log2_bounds(2)[OF this] assms
  have "(2::real) powi k < 2 powi (\<lfloor>log 2 \<bar>x\<bar>\<rfloor> + 1)" by linarith
  then show ?thesis using two_powi_less_cancel by fastforce
qed

subsection \<open>Rounding to a double\<close>

lemma fl_zero [simp]: "fl 0 = 0"
  unfolding fl_def by simp

lemma ulp_exp_minus [simp]: "ulp_exp (- x) = ulp_exp x"
  unfolding ulp_exp_def by simp

lemma fl_minus: "fl (- x) = - fl x"
  unfolding fl_def by (simp add: round_half_even_minus)

lemma fl_nonneg: "0 \<le> x \<Longrightarrow> 0 \<le> fl x"
  unfolding fl_def using round_half_even_ge[of 0 "x / 2 powi ulp_exp x"] by simp

lemma fl_nonpos: "x \<le> 0 \<Longrightarrow> fl x \<le> 0"
  using fl_nonneg[of "- x"] by (simp add: fl_minus)

lemma ulp_exp_le:
  assumes "x \<noteq> 0" and "\<bar>x\<bar> < 2 powi (k + 53)" and "- 1074 \<le> k"
  shows "ulp_exp x \<le> k"
  using floor_log2_le[OF assms(1,2)] assms(3) unfolding ulp_exp_def by simp

lemma round_half_even_zero [simp]: "round_half_even 0 = 0"
  using round_half_even_of_int[of 0] by simp

lemma fl_scaled:
  "fl x = of_int (round_half_even (x / 2 powi ulp_exp x)) * 2 powi ulp_exp x"
  unfolding fl_def by simp

lemma fl_abs_le:
  assumes "\<bar>x\<bar> \<le> 2 powi k" and "- 1074 \<le> k"
  shows "\<bar>fl x\<bar> \<le> 2 powi k"
proof (cases "x = 0")
  case True then show ?thesis by simp
next
  case False
  define u where "u = ulp_exp x"
  define N :: int where "N = 2 ^ nat (k - u)"
  have "\<bar>x\<bar> < 2 powi (k + 53)"
    using assms(1) two_powi_le[of k "k + 53"] two_powi_pos[of k]
    by (smt (verit) power_int_strict_increasing)
  then have uk: "u \<le> k" unfolding u_def using False assms(2) by (intro ulp_exp_le) auto
  have k: "(2::real) powi k = of_int N * 2 powi u"
    unfolding N_def by (rule two_powi_split[OF uk])
  have q: "0 < (2::real) powi u" by simp
  have "x / 2 powi u \<le> of_int N" and "of_int (- N) \<le> x / 2 powi u"
    using assms(1) unfolding k using q by (simp_all add: field_simps abs_le_iff)
  then have "round_half_even (x / 2 powi u) \<le> N" and "- N \<le> round_half_even (x / 2 powi u)"
    by (auto intro: round_half_even_le round_half_even_ge)
  then have "\<bar>of_int (round_half_even (x / 2 powi u)) :: real\<bar> \<le> of_int N"
    by (simp add: abs_le_iff)
  then have "\<bar>of_int (round_half_even (x / 2 powi u)) * 2 powi u :: real\<bar> \<le> of_int N * 2 powi u"
    using q by (simp add: abs_mult)
  then show ?thesis unfolding k fl_scaled[of x] u_def .
qed


lemma fl_abs_ge:
  assumes "2 powi k \<le> \<bar>x\<bar>" and "- 1074 \<le> k"
  shows "2 powi k \<le> \<bar>fl x\<bar>"
proof -
  define L where "L = \<lfloor>log 2 \<bar>x\<bar>\<rfloor>"
  define u where "u = ulp_exp x"
  define N :: int where "N = 2 ^ nat (L - u)"
  have "0 < \<bar>x\<bar>" using assms(1) two_powi_pos[of k] by linarith
  then have x0: "x \<noteq> 0" by simp
  have kL: "k \<le> L" unfolding L_def by (rule floor_log2_ge[OF assms(1)])
  have uL: "u \<le> L" unfolding u_def ulp_exp_def L_def[symmetric] using kL assms(2) by simp
  have Lx: "2 powi L \<le> \<bar>x\<bar>" unfolding L_def by (rule floor_log2_bounds(1)[OF x0])
  have Leq: "(2::real) powi L = of_int N * 2 powi u"
    unfolding N_def by (rule two_powi_split[OF uL])
  have q: "0 < (2::real) powi u" by simp
  have N0: "0 \<le> N" unfolding N_def by simp
  have "of_int N \<le> \<bar>x / 2 powi u\<bar>"
    using Lx unfolding Leq using q by (simp add: field_simps)
  then have "N \<le> \<bar>round_half_even (x / 2 powi u)\<bar>"
  proof (cases "0 \<le> x / 2 powi u")
    case True
    assume "of_int N \<le> \<bar>x / 2 powi u\<bar>"
    with True have "of_int N \<le> x / 2 powi u" by simp
    then have "N \<le> round_half_even (x / 2 powi u)" by (rule round_half_even_ge)
    then show ?thesis by simp
  next
    case False
    assume "of_int N \<le> \<bar>x / 2 powi u\<bar>"
    with False have "x / 2 powi u \<le> of_int (- N)" by simp
    then have "round_half_even (x / 2 powi u) \<le> - N" by (rule round_half_even_le)
    then show ?thesis by simp
  qed
  then have "of_int N \<le> \<bar>of_int (round_half_even (x / 2 powi u)) :: real\<bar>"
    by (metis of_int_abs of_int_le_iff)
  then have "of_int N * 2 powi u \<le> \<bar>of_int (round_half_even (x / 2 powi u)) * 2 powi u :: real\<bar>"
    using q by (simp add: abs_mult)
  then have "2 powi L \<le> \<bar>fl x\<bar>" unfolding Leq fl_scaled[of x] u_def .
  with two_powi_le[OF kL] show ?thesis by linarith
qed

lemma fl_representable:
  assumes "x = of_int m * 2 powi e" and "\<bar>m\<bar> < 2 ^ 53" and "- 1074 \<le> e"
  shows "fl x = x"
proof (cases "x = 0")
  case True then show ?thesis by simp
next
  case False
  define u where "u = ulp_exp x"
  have "\<bar>x\<bar> = of_int \<bar>m\<bar> * 2 powi e" unfolding assms(1) by (simp add: abs_mult)
  also have "\<dots> < 2 ^ 53 * 2 powi e"
    using assms(2) by (intro mult_strict_right_mono) (simp_all flip: of_int_less_iff)
  also have "\<dots> = 2 powi (e + 53)" by (simp add: two_powi_add)
  finally have "\<bar>x\<bar> < 2 powi (e + 53)" .
  then have ue: "u \<le> e" unfolding u_def using False assms(3) by (intro ulp_exp_le) auto
  have "x / 2 powi u = of_int (m * 2 ^ nat (e - u))"
    unfolding assms(1) two_powi_split[OF ue] by simp
  then have "round_half_even (x / 2 powi u) = m * 2 ^ nat (e - u)"
    by (simp only: round_half_even_of_int)
  then have "fl x = of_int (m * 2 ^ nat (e - u)) * 2 powi u"
    unfolding fl_scaled[of x] u_def by simp
  also have "\<dots> = x" unfolding assms(1) two_powi_split[OF ue] by simp
  finally show ?thesis .
qed

lemma fl_of_int: "\<bar>n\<bar> < 2 ^ 53 \<Longrightarrow> fl (of_int n) = of_int n"
  by (rule fl_representable[of _ n 0]) simp_all

lemma fl_two_powi: "- 1074 \<le> k \<Longrightarrow> fl (2 powi k) = 2 powi k"
  by (rule fl_representable[of _ 1 k]) simp_all

lemma fl_error:
  "\<bar>fl x - x\<bar> \<le> 2 powi ulp_exp x / 2"
proof -
  define u where "u = ulp_exp x"
  have q: "0 < (2::real) powi u" by simp
  have "\<bar>of_int (round_half_even (x / 2 powi u)) - x / 2 powi u\<bar> \<le> 1 / 2"
    by (rule round_half_even_close)
  then have "\<bar>of_int (round_half_even (x / 2 powi u)) - x / 2 powi u\<bar> * 2 powi u
               \<le> 1 / 2 * 2 powi u"
    using q by (intro mult_right_mono) simp_all
  also have "\<bar>of_int (round_half_even (x / 2 powi u)) - x / 2 powi u\<bar> * 2 powi u
        = \<bar>of_int (round_half_even (x / 2 powi u)) * 2 powi u - x\<bar>"
  proof -
    have "\<bar>of_int (round_half_even (x / 2 powi u)) - x / 2 powi u\<bar> * 2 powi u
          = \<bar>(of_int (round_half_even (x / 2 powi u)) - x / 2 powi u) * 2 powi u\<bar>"
      using q by (simp add: abs_mult)
    also have "(of_int (round_half_even (x / 2 powi u)) - x / 2 powi u) * 2 powi u
          = of_int (round_half_even (x / 2 powi u)) * 2 powi u - x"
      using q by (simp add: left_diff_distrib)
    finally show ?thesis .
  qed
  finally show ?thesis unfolding fl_scaled[of x] u_def by simp
qed

lemma fl_error_abs:
  assumes "\<bar>x\<bar> \<le> 2 powi k" and "- 1021 \<le> k"
  shows "\<bar>fl x - x\<bar> \<le> 2 powi (k - 54)"
proof (cases "\<bar>x\<bar> = 2 powi k \<or> x = 0")
  case True
  then have "fl x = x"
  proof
    assume a: "\<bar>x\<bar> = 2 powi k"
    have "fl \<bar>x\<bar> = \<bar>x\<bar>" unfolding a using assms(2) by (intro fl_two_powi) simp
    then show ?thesis by (cases "0 \<le> x") (simp_all add: fl_minus)
  qed simp
  then show ?thesis by simp
next
  case False
  then have "\<bar>x\<bar> < 2 powi ((k - 53) + 53)" and x0: "x \<noteq> 0" using assms(1) by auto
  then have "ulp_exp x \<le> k - 53" using assms(2) by (intro ulp_exp_le) auto
  then have "(2::real) powi ulp_exp x \<le> 2 powi (k - 53)" by (rule two_powi_le)
  moreover have "(2::real) powi (k - 53) = 2 * 2 powi (k - 54)"
    using two_powi_add[of 1 "k - 54"] by simp
  ultimately show ?thesis using fl_error[of x] by linarith
qed

lemma fl_error_rel:
  assumes "2 powi (- 1022) \<le> \<bar>x\<bar>"
  shows "\<bar>fl x - x\<bar> \<le> \<bar>x\<bar> / 2 ^ 53"
proof -
  define L where "L = \<lfloor>log 2 \<bar>x\<bar>\<rfloor>"
  have "0 < \<bar>x\<bar>" using assms two_powi_pos[of "- 1022"] by linarith
  then have x0: "x \<noteq> 0" by simp
  have L: "- 1022 \<le> L" unfolding L_def by (rule floor_log2_ge[OF assms])
  have "ulp_exp x = max (L - 52) (- 1074)" unfolding ulp_exp_def L_def ..
  with L have u: "ulp_exp x = L - 52" by simp
  have "(2::real) powi L = 2 powi (L - 52) * 2 ^ 52"
    using two_powi_add[of "L - 52" 52] by simp
  moreover have "2 powi L \<le> \<bar>x\<bar>" unfolding L_def by (rule floor_log2_bounds(1)[OF x0])
  ultimately have "2 powi (L - 52) / 2 \<le> \<bar>x\<bar> / 2 ^ 53" by (simp add: field_simps)
  with fl_error[of x] show ?thesis unfolding u by linarith
qed

lemma ulp_exp_mono:
  assumes "x \<noteq> 0" and "\<bar>x\<bar> \<le> \<bar>y\<bar>"
  shows "ulp_exp x \<le> ulp_exp y"
proof -
  have "2 powi \<lfloor>log 2 \<bar>x\<bar>\<rfloor> \<le> \<bar>y\<bar>"
    using floor_log2_bounds(1)[OF assms(1)] assms(2) by linarith
  then have "\<lfloor>log 2 \<bar>x\<bar>\<rfloor> \<le> \<lfloor>log 2 \<bar>y\<bar>\<rfloor>" by (rule floor_log2_ge)
  then show ?thesis unfolding ulp_exp_def by simp
qed

lemma fl_mono_nonneg:
  assumes "0 \<le> x" and "x \<le> y"
  shows "fl x \<le> fl y"
proof (cases "x = 0")
  case True
  then show ?thesis using fl_nonneg[of y] assms by simp
next
  case False
  then have x: "0 < x" and y: "0 < y" using assms by auto
  have le: "ulp_exp x \<le> ulp_exp y" by (rule ulp_exp_mono) (use False assms in auto)
  show ?thesis
  proof (cases "ulp_exp x = ulp_exp y")
    case True
    have "x / 2 powi ulp_exp y \<le> y / 2 powi ulp_exp y"
      using assms(2) by (simp add: divide_right_mono)
    then have "round_half_even (x / 2 powi ulp_exp y) \<le> round_half_even (y / 2 powi ulp_exp y)"
      by (rule round_half_even_mono)
    then show ?thesis unfolding fl_scaled[of x] fl_scaled[of y] True
      by (simp add: mult_right_mono)
  next
    case False
    define L where "L = \<lfloor>log 2 \<bar>y\<bar>\<rfloor>"
    from False le have lt: "ulp_exp x < ulp_exp y" by simp
    have "- 1074 \<le> ulp_exp x" unfolding ulp_exp_def by simp
    with lt have "- 1074 < ulp_exp y" by simp
    moreover have "ulp_exp y = max (L - 52) (- 1074)" unfolding ulp_exp_def L_def ..
    ultimately have uy: "ulp_exp y = L - 52" and L: "- 1022 < L" by simp_all
    have "\<lfloor>log 2 \<bar>x\<bar>\<rfloor> - 52 \<le> ulp_exp x" unfolding ulp_exp_def by simp
    with lt uy have "\<lfloor>log 2 \<bar>x\<bar>\<rfloor> + 1 \<le> L" by simp
    then have "\<bar>x\<bar> \<le> 2 powi L"
      using floor_log2_bounds(2)[of x] \<open>x \<noteq> 0\<close> two_powi_le[of "\<lfloor>log 2 \<bar>x\<bar>\<rfloor> + 1" L]
      by linarith
    then have "\<bar>fl x\<bar> \<le> 2 powi L" using L by (intro fl_abs_le) auto
    moreover have "2 powi L \<le> \<bar>y\<bar>"
      unfolding L_def using y by (intro floor_log2_bounds(1)) simp
    then have "2 powi L \<le> \<bar>fl y\<bar>" using L by (intro fl_abs_ge) auto
    ultimately show ?thesis using fl_nonneg[of x] fl_nonneg[of y] x y by simp
  qed
qed

lemma fl_mono:
  assumes "x \<le> y" shows "fl x \<le> fl y"
proof -
  consider "0 \<le> x" | "x < 0" "0 \<le> y" | "y < 0" by linarith
  then show ?thesis
  proof cases
    case 1 then show ?thesis using assms by (rule fl_mono_nonneg)
  next
    case 2 then show ?thesis using fl_nonpos[of x] fl_nonneg[of y] by simp
  next
    case 3
    then have "fl (- y) \<le> fl (- x)" using assms by (intro fl_mono_nonneg) auto
    then show ?thesis by (simp add: fl_minus)
  qed
qed

section \<open>Mono: evaluation and error bounds\<close>

subsection \<open>Evaluating roundings\<close>

lemma fl_eq:
  assumes "2 powi (e + 52) \<le> \<bar>x\<bar>" and "\<bar>x\<bar> < 2 powi (e + 53)" and "- 1074 \<le> e"
  shows "fl x = of_int (round_half_even (x / 2 powi e)) * 2 powi e"
proof -
  have "0 < \<bar>x\<bar>" using assms(1) two_powi_pos[of "e + 52"] by linarith
  then have x0: "x \<noteq> 0" by simp
  have "e + 52 \<le> \<lfloor>log 2 \<bar>x\<bar>\<rfloor>" by (rule floor_log2_ge[OF assms(1)])
  moreover have "\<lfloor>log 2 \<bar>x\<bar>\<rfloor> < e + 53" by (rule floor_log2_le[OF x0 assms(2)])
  ultimately have "ulp_exp x = e" unfolding ulp_exp_def using assms(3) by simp
  then show ?thesis using fl_scaled[of x] by simp
qed

lemma rnd_finite:
  assumes "\<bar>x\<bar> \<le> 2 powi k" and "- 1074 \<le> k" and "k \<le> 1023"
  shows "rnd x = Finite (fl x)"
proof -
  have "\<bar>fl x\<bar> \<le> 2 powi k" by (rule fl_abs_le[OF assms(1,2)])
  also have "(2::real) powi k \<le> 2 powi 1023" by (rule two_powi_le[OF assms(3)])
  also have "(2::real) powi 1023 < 2 ^ 1024" by simp
  finally have "\<bar>fl x\<bar> < 2 ^ 1024" .
  then show ?thesis unfolding rnd_def by (auto simp: abs_less_iff)
qed

lemma c03: "fl (3 / 10) = 5404319552844595 / 2 ^ 54"
proof -
  have "fl (3 / 10) = of_int (round_half_even ((3 / 10) / 2 powi (- 54))) * 2 powi (- 54)"
    by (rule fl_eq) (simp_all add: power_int_minus)
  also have "\<dots> = 5404319552844595 / 2 ^ 54"
    by (simp add: round_half_even_def power_int_minus Let_def)
  finally show ?thesis .
qed

lemma c06: "fl (3 / 5) = 5404319552844595 / 2 ^ 53"
proof -
  have "fl (3 / 5) = of_int (round_half_even ((3 / 5) / 2 powi (- 53))) * 2 powi (- 53)"
    by (rule fl_eq) (simp_all add: power_int_minus)
  also have "\<dots> = 5404319552844595 / 2 ^ 53"
    by (simp add: round_half_even_def power_int_minus Let_def)
  finally show ?thesis .
qed

lemma c01: "fl (1 / 10) = 3602879701896397 / 2 ^ 55"
proof -
  have "fl (1 / 10) = of_int (round_half_even ((1 / 10) / 2 powi (- 56))) * 2 powi (- 56)"
    by (rule fl_eq) (simp_all add: power_int_minus)
  also have "\<dots> = 3602879701896397 / 2 ^ 55"
    by (simp add: round_half_even_def power_int_minus Let_def)
  finally show ?thesis .
qed

lemma rnd_zero [simp]: "rnd 0 = Finite 0"
  unfolding rnd_def by simp

lemma float_of_int_small:
  assumes "\<bar>n\<bar> < 2 ^ 53"
  shows "float_of_int n = Inr (Finite (of_int n))"
proof -
  have "\<bar>of_int n :: real\<bar> \<le> 2 powi 53"
    using assms by (simp flip: of_int_abs)
  then have "rnd (of_int n) = Finite (fl (of_int n))" by (rule rnd_finite) simp_all
  then show ?thesis unfolding float_of_int_def by (simp add: fl_of_int[OF assms])
qed

lemma rnd_evalI:
  assumes "x = y"
    and "2 powi (e + 52) \<le> \<bar>y\<bar>" and "\<bar>y\<bar> < 2 powi (e + 53)"
    and "- 1074 \<le> e" and "e \<le> 970"
    and "of_int (round_half_even (y / 2 powi e)) * 2 powi e = z"
  shows "rnd x = Finite z"
proof -
  have "\<bar>y\<bar> \<le> 2 powi (e + 53)" using assms(3) by simp
  then have "rnd y = Finite (fl y)" using assms(4,5) by (intro rnd_finite[of y "e + 53"]) auto
  then show ?thesis unfolding assms(1) fl_eq[OF assms(2,3,4)] assms(6) .
qed

lemma brightness_small:
  assumes "\<bar>red p\<bar> < 2 ^ 53" and "\<bar>green p\<bar> < 2 ^ 53" and "\<bar>blue p\<bar> < 2 ^ 53"
  shows "brightness p =
           Inr (fadd (fadd (rnd (fl (3 / 10) * of_int (red p)))
                           (rnd (fl (3 / 5) * of_int (green p))))
                     (rnd (fl (1 / 10) * of_int (blue p))))"
  unfolding brightness_def int_times_def lit_def then_do_def
  by (simp add: float_of_int_small[OF assms(1)] float_of_int_small[OF assms(2)]
      float_of_int_small[OF assms(3)])

lemma brightness_020:
  "brightness (mk_RGB 0 2 0 255) = Inr (Finite (5404319552844595 / 2 ^ 52))"
proof -
  have m: "rnd (fl (3 / 5) * 2) = Finite (5404319552844595 / 2 ^ 52)"
    by (rule rnd_evalI[where e = "- 52" and y = "5404319552844595 / 2 ^ 52"])
       (simp_all add: c06 round_half_even_def power_int_minus Let_def)
  have a: "rnd (5404319552844595 / 2 ^ 52) = Finite (5404319552844595 / 2 ^ 52)"
    by (rule rnd_evalI[where e = "- 52" and y = "5404319552844595 / 2 ^ 52"])
       (simp_all add: round_half_even_def power_int_minus Let_def)
  have "brightness (mk_RGB 0 2 0 255) =
          Inr (fadd (fadd (rnd (fl (3 / 10) * of_int 0)) (rnd (fl (3 / 5) * of_int 2)))
                    (rnd (fl (1 / 10) * of_int 0)))"
    using brightness_small[of "mk_RGB 0 2 0 255"] by (simp add: mk_RGB_def)
  also have "\<dots> = Inr (fadd (fadd (Finite 0) (Finite (5404319552844595 / 2 ^ 52))) (Finite 0))"
    using m by simp
  also have "\<dots> = Inr (Finite (5404319552844595 / 2 ^ 52))"
    using a by simp
  finally show ?thesis .
qed

lemma brightness_111:
  "brightness (mk_RGB 1 1 1 255) = Inr (Finite (9007199254740991 / 2 ^ 53))"
proof -
  have p3: "rnd (fl (3 / 10) * 1) = Finite (5404319552844595 / 2 ^ 54)"
    by (rule rnd_evalI[where e = "- 54" and y = "5404319552844595 / 2 ^ 54"])
       (simp_all add: c03 round_half_even_def power_int_minus Let_def)
  have p6: "rnd (fl (3 / 5) * 1) = Finite (5404319552844595 / 2 ^ 53)"
    by (rule rnd_evalI[where e = "- 53" and y = "5404319552844595 / 2 ^ 53"])
       (simp_all add: c06 round_half_even_def power_int_minus Let_def)
  have p1: "rnd (fl (1 / 10) * 1) = Finite (3602879701896397 / 2 ^ 55)"
    by (rule rnd_evalI[where e = "- 56" and y = "3602879701896397 / 2 ^ 55"])
       (simp_all add: c01 round_half_even_def power_int_minus Let_def)
  have s1: "rnd (5404319552844595 / 2 ^ 54 + 5404319552844595 / 2 ^ 53)
             = Finite (8106479329266892 / 2 ^ 53)"
    by (rule rnd_evalI[where e = "- 53" and y = "16212958658533785 / 2 ^ 54"])
       (simp_all add: round_half_even_def power_int_minus Let_def)
  have s2: "rnd (8106479329266892 / 2 ^ 53 + 3602879701896397 / 2 ^ 55)
             = Finite (9007199254740991 / 2 ^ 53)"
    by (rule rnd_evalI[where e = "- 53" and y = "36028797018963965 / 2 ^ 55"])
       (simp_all add: round_half_even_def power_int_minus Let_def)
  have "brightness (mk_RGB 1 1 1 255) =
          Inr (fadd (fadd (rnd (fl (3 / 10) * of_int 1)) (rnd (fl (3 / 5) * of_int 1)))
                    (rnd (fl (1 / 10) * of_int 1)))"
    using brightness_small[of "mk_RGB 1 1 1 255"] by (simp add: mk_RGB_def)
  also have "\<dots> = Inr (fadd (fadd (Finite (5404319552844595 / 2 ^ 54))
                                   (Finite (5404319552844595 / 2 ^ 53)))
                             (Finite (3602879701896397 / 2 ^ 55)))"
    using p3 p6 p1 by simp
  also have "\<dots> = Inr (fadd (Finite (8106479329266892 / 2 ^ 53))
                             (Finite (3602879701896397 / 2 ^ 55)))"
    using s1 by (simp only: fadd.simps)
  also have "\<dots> = Inr (Finite (9007199254740991 / 2 ^ 53))"
    using s2 by (simp only: fadd.simps)
  finally show ?thesis .
qed

lemma mono_pixel_020: "mono_pixel False (mk_RGB 0 2 0 255) = Inr (mk_RGB 1 1 1 255)"
  unfolding mono_pixel_def brightness_020 then_do_def
  by (simp add: truncate_def mk_RGB_def)

lemma mono_pixel_111: "mono_pixel False (mk_RGB 1 1 1 255) = Inr (mk_RGB 0 0 0 255)"
  unfolding mono_pixel_def brightness_111 then_do_def
  by (simp add: truncate_def mk_RGB_def)

lemma mono_image_single:
  "mono_pixel sepia p = Inr q \<Longrightarrow> mono_image [[p]] sepia = Inr [[q]]"
  unfolding mono_image_def for_each_pixel_def by (simp add: then_do_def)

lemma rnd_step:
  assumes "\<bar>x\<bar> \<le> 2 powi k" and "- 1021 \<le> k" and "k \<le> 1023"
  shows "rnd x = Finite (fl x)" and "\<bar>fl x - x\<bar> \<le> 2 powi (k - 54)" and "\<bar>fl x\<bar> \<le> 2 powi k"
proof -
  show "rnd x = Finite (fl x)" using assms by (intro rnd_finite[of x k]) auto
  show "\<bar>fl x - x\<bar> \<le> 2 powi (k - 54)" by (rule fl_error_abs[OF assms(1,2)])
  show "\<bar>fl x\<bar> \<le> 2 powi k" using assms by (intro fl_abs_le) auto
qed

lemma abs_chain:
  fixes a b c :: real
  shows "\<bar>a - b\<bar> \<le> e1 \<Longrightarrow> \<bar>b - c\<bar> \<le> e2 \<Longrightarrow> e1 + e2 \<le> e \<Longrightarrow> \<bar>a - c\<bar> \<le> e"
  by linarith

lemma abs_sum:
  fixes a b a' b' :: real
  shows "\<bar>a - a'\<bar> \<le> e1 \<Longrightarrow> \<bar>b - b'\<bar> \<le> e2 \<Longrightarrow> e1 + e2 \<le> e
    \<Longrightarrow> \<bar>(a + b) - (a' + b')\<bar> \<le> e"
  by linarith

lemma brightness_valid:
  assumes "0 \<le> red p" "red p \<le> 255" "0 \<le> green p" "green p \<le> 255"
    and "0 \<le> blue p" "blue p \<le> 255"
  shows "\<exists>s. brightness p = Inr (Finite s) \<and> 0 \<le> s
           \<and> \<bar>s - (3 * of_int (red p) + 6 * of_int (green p) + of_int (blue p)) / 10\<bar>
                \<le> 2 powi (- 42)"
proof -
  define R :: real where "R = of_int (red p)"
  define G :: real where "G = of_int (green p)"
  define B :: real where "B = of_int (blue p)"
  have R: "0 \<le> R" "R \<le> 255" and G: "0 \<le> G" "G \<le> 255" and B: "0 \<le> B" "B \<le> 255"
    unfolding R_def G_def B_def using assms by simp_all
  define x3 where "x3 = fl (3 / 10) * R"
  define x6 where "x6 = fl (3 / 5) * G"
  define x1 where "x1 = fl (1 / 10) * B"
  have x3: "0 \<le> x3" "x3 \<le> 128" "\<bar>x3 - 3 / 10 * R\<bar> \<le> 2 powi (- 47)"
    unfolding x3_def c03 using R by (simp_all add: power_int_minus abs_le_iff)
  have x6: "0 \<le> x6" "x6 \<le> 256" "\<bar>x6 - 3 / 5 * G\<bar> \<le> 2 powi (- 46)"
    unfolding x6_def c06 using G by (simp_all add: power_int_minus abs_le_iff)
  have x1: "0 \<le> x1" "x1 \<le> 32" "\<bar>x1 - 1 / 10 * B\<bar> \<le> 2 powi (- 49)"
    unfolding x1_def c01 using B by (simp_all add: power_int_minus abs_le_iff)
  note a = rnd_step[of x3 7]
  have a3: "rnd x3 = Finite (fl x3)" "\<bar>fl x3 - x3\<bar> \<le> 2 powi (- 47)" "\<bar>fl x3\<bar> \<le> 128"
    using a x3(1,2) by simp_all
  note b = rnd_step[of x6 8]
  have a6: "rnd x6 = Finite (fl x6)" "\<bar>fl x6 - x6\<bar> \<le> 2 powi (- 46)" "\<bar>fl x6\<bar> \<le> 256"
    using b x6(1,2) by simp_all
  note c = rnd_step[of x1 5]
  have a1: "rnd x1 = Finite (fl x1)" "\<bar>fl x1 - x1\<bar> \<le> 2 powi (- 49)" "\<bar>fl x1\<bar> \<le> 32"
    using c x1(1,2) by simp_all
  have n3: "0 \<le> fl x3" and n6: "0 \<le> fl x6" and n1: "0 \<le> fl x1"
    using x3(1) x6(1) x1(1) by (simp_all add: fl_nonneg)
  define s1 where "s1 = fl (fl x3 + fl x6)"
  note d = rnd_step[of "fl x3 + fl x6" 9]
  have b1: "rnd (fl x3 + fl x6) = Finite s1" "\<bar>s1 - (fl x3 + fl x6)\<bar> \<le> 2 powi (- 45)"
      "\<bar>s1\<bar> \<le> 512"
    unfolding s1_def using d a3(3) a6(3) n3 n6 by simp_all
  have ns1: "0 \<le> s1" unfolding s1_def using n3 n6 by (simp add: fl_nonneg)
  define s2 where "s2 = fl (s1 + fl x1)"
  note e = rnd_step[of "s1 + fl x1" 10]
  have b2: "rnd (s1 + fl x1) = Finite s2" "\<bar>s2 - (s1 + fl x1)\<bar> \<le> 2 powi (- 44)"
    unfolding s2_def using e b1(3) a1(3) ns1 n1 by simp_all
  have ns2: "0 \<le> s2" unfolding s2_def using ns1 n1 by (simp add: fl_nonneg)
  have small: "\<bar>red p\<bar> < 2 ^ 53" "\<bar>green p\<bar> < 2 ^ 53" "\<bar>blue p\<bar> < 2 ^ 53"
    using assms by simp_all
  have "brightness p = Inr (fadd (fadd (rnd x3) (rnd x6)) (rnd x1))"
    unfolding x3_def x6_def x1_def R_def G_def B_def by (rule brightness_small[OF small])
  also have "\<dots> = Inr (Finite s2)"
    unfolding a3(1) a6(1) a1(1) by (simp only: fadd.simps b1(1) b2(1))
  finally have br: "brightness p = Inr (Finite s2)" .
  have t3: "\<bar>fl x3 - 3 / 10 * R\<bar> \<le> 2 powi (- 46)"
    by (rule abs_chain[OF a3(2) x3(3)]) (simp add: power_int_minus)
  have t6: "\<bar>fl x6 - 3 / 5 * G\<bar> \<le> 2 powi (- 45)"
    by (rule abs_chain[OF a6(2) x6(3)]) (simp add: power_int_minus)
  have t1: "\<bar>fl x1 - 1 / 10 * B\<bar> \<le> 2 powi (- 48)"
    by (rule abs_chain[OF a1(2) x1(3)]) (simp add: power_int_minus)
  have "\<bar>(fl x3 + fl x6) - (3 / 10 * R + 3 / 5 * G)\<bar> \<le> 2 powi (- 44)"
    by (rule abs_sum[OF t3 t6]) (simp add: power_int_minus)
  then have u1: "\<bar>s1 - (3 / 10 * R + 3 / 5 * G)\<bar> \<le> 2 powi (- 43)"
    by (rule abs_chain[OF b1(2)]) (simp add: power_int_minus)
  have "\<bar>(s1 + fl x1) - ((3 / 10 * R + 3 / 5 * G) + 1 / 10 * B)\<bar> \<le> 2 powi (- 43) + 2 powi (- 48)"
    by (rule abs_sum[OF u1 t1]) simp
  then have "\<bar>s2 - ((3 / 10 * R + 3 / 5 * G) + 1 / 10 * B)\<bar> \<le> 2 powi (- 42)"
    by (rule abs_chain[OF b2(2)]) (simp add: power_int_minus)
  moreover have "(3 / 10 * R + 3 / 5 * G) + 1 / 10 * B = (3 * R + 6 * G + B) / 10" by simp
  ultimately have "\<bar>s2 - (3 * R + 6 * G + B) / 10\<bar> \<le> 2 powi (- 42)" by (simp only:)
  with br ns2 show ?thesis unfolding R_def G_def B_def by blast
qed

subsection \<open>Loops over all pixels\<close>

lemma then_do_Inr_iff:
  "then_do m f = Inr y \<longleftrightarrow> (\<exists>x. m = Inr x \<and> f x = Inr y)"
  unfolding then_do_def by (cases m) auto

lemma then_do_Inr [simp]: "then_do (Inr x) f = f x"
  unfolding then_do_def by simp

lemma then_do_Inl [simp]: "then_do (Inl e) f = Inl e"
  unfolding then_do_def by simp

lemma sequence_Inr_iff:
  "sequence (map f xs) = Inr ys \<longleftrightarrow> list_all2 (\<lambda>x y. f x = Inr y) xs ys"
proof (induction xs arbitrary: ys)
  case Nil
  then show ?case by auto
next
  case (Cons x xs)
  show ?case
    by (cases ys) (auto simp: then_do_Inr_iff Cons.IH)
qed

lemma sequence_total:
  assumes "\<forall>x \<in> set xs. \<exists>y. f x = Inr y"
  shows "\<exists>ys. sequence (map f xs) = Inr ys"
  using assms
proof (induction xs)
  case Nil
  then show ?case by simp
next
  case (Cons x xs)
  then obtain y ys where "f x = Inr y" and "sequence (map f xs) = Inr ys" by auto
  then show ?case by simp
qed

lemma for_each_pixel_Inr_iff:
  "for_each_pixel f img = Inr img' \<longleftrightarrow>
     list_all2 (list_all2 (\<lambda>p q. f p = Inr q)) img img'"
  unfolding for_each_pixel_def sequence_Inr_iff ..

lemma for_each_pixel_total:
  assumes "\<forall>row \<in> set img. \<forall>p \<in> set row. \<exists>q. f p = Inr q"
  shows "\<exists>img'. for_each_pixel f img = Inr img'"
  unfolding for_each_pixel_def
  by (rule sequence_total) (use assms in \<open>auto intro: sequence_total\<close>)

lemma same_lengths_shape:
  assumes "list_all2 (\<lambda>row row'. length row' = length row) b b'" and "verify_image b"
  shows "verify_image b'" and "height b' = height b" and "width b' = width b"
proof -
  from assms(2) have ne: "b \<noteq> []" and w: "0 < width b"
    and all: "\<forall>row \<in> set b. length row = width b"
    unfolding verify_image_iff by auto
  have len: "length b' = length b" using assms(1) by (simp add: list_all2_lengthD)
  then have ne': "b' \<noteq> []" using ne by auto
  have all': "\<forall>row \<in> set b'. length row = width b"
  proof
    fix row' assume "row' \<in> set b'"
    then obtain i where i: "i < length b'" and r: "row' = b' ! i"
      by (auto simp: in_set_conv_nth)
    then have "length (b' ! i) = length (b ! i)"
      using list_all2_nthD2[OF assms(1), of i] by simp
    moreover have "b ! i \<in> set b" using i len by simp
    ultimately show "length row' = width b" using all r by simp
  qed
  show "verify_image b'" by (rule verify_imageI(1)[OF ne' w all'])
  show "width b' = width b" by (rule verify_imageI(2)[OF ne' w all'])
  show "height b' = height b" unfolding height_def by (rule len)
qed

lemma for_each_pixel_shape:
  assumes "for_each_pixel f b = Inr b'" and "verify_image b"
  shows "verify_image b'" and "height b' = height b" and "width b' = width b"
proof -
  have "list_all2 (list_all2 (\<lambda>p q. f p = Inr q)) b b'"
    using assms(1) by (simp add: for_each_pixel_Inr_iff)
  then have l: "list_all2 (\<lambda>row row'. length row' = length row) b b'"
    by (rule list_all2_mono) (simp add: list_all2_lengthD)
  show "verify_image b'" and "height b' = height b" and "width b' = width b"
    by (rule same_lengths_shape[OF l assms(2)])+
qed

lemma for_each_pixel_nth:
  assumes "for_each_pixel f b = Inr b'" and "verify_image b"
    and "r < height b" and "c < width b"
  shows "f (b ! r ! c) = Inr (b' ! r ! c)"
proof -
  have l: "list_all2 (list_all2 (\<lambda>p q. f p = Inr q)) b b'"
    using assms(1) by (simp add: for_each_pixel_Inr_iff)
  have r: "r < length b" using assms(3) unfolding height_def .
  then have "list_all2 (\<lambda>p q. f p = Inr q) (b ! r) (b' ! r)"
    using list_all2_nthD[OF l, of r] by simp
  moreover have "c < length (b ! r)" using verify_image_nth[OF assms(2) r] assms(4) by simp
  ultimately show ?thesis using list_all2_nthD[of "\<lambda>p q. f p = Inr q" "b ! r" "b' ! r" c] by simp
qed

lemma valid_image_nth:
  assumes "valid_image b" and "r < height b" and "c < width b"
  shows "valid_pixel (b ! r ! c)"
proof -
  have v: "verify_image b" using assms(1) unfolding valid_image_def by simp
  have r: "r < length b" using assms(2) unfolding height_def .
  have "c < length (b ! r)" using verify_image_nth[OF v r] assms(3) by simp
  then show ?thesis using assms(1) r unfolding valid_image_def by (simp add: list_all_length)
qed

lemma valid_imageI:
  assumes "verify_image b" and "height b < 2 ^ 63" and "width b < 2 ^ 63"
    and "\<And>r c. r < height b \<Longrightarrow> c < width b \<Longrightarrow> valid_pixel (b ! r ! c)"
  shows "valid_image b"
proof -
  have "list_all (list_all valid_pixel) b"
    unfolding list_all_length
  proof (intro allI impI)
    fix r c assume r: "r < length b" and c: "c < length (b ! r)"
    have "c < width b" using verify_image_nth[OF assms(1) r] c by simp
    then show "valid_pixel (b ! r ! c)" using r by (intro assms(4)) (simp_all add: height_def)
  qed
  then show ?thesis unfolding valid_image_def using assms(1,2,3) by simp
qed

subsection \<open>Mono\<close>

lemma truncate_nonneg: "0 \<le> x \<Longrightarrow> truncate x = \<lfloor>x\<rfloor>"
  unfolding truncate_def by simp

lemma mono_pixel_valid:
  assumes "valid_pixel p"
  shows "\<exists>s. brightness p = Inr (Finite s)
           \<and> \<bar>s - (3 * of_int (red p) + 6 * of_int (green p) + of_int (blue p)) / 10\<bar>
                \<le> 2 powi (- 42)
           \<and> mono_pixel False p =
               Inr (p\<lparr>red := truncate s, green := truncate s, blue := truncate s\<rparr>)
           \<and> 0 \<le> truncate s \<and> truncate s \<le> 255"
proof -
  from assms have ch: "0 \<le> red p" "red p \<le> 255" "0 \<le> green p" "green p \<le> 255"
      "0 \<le> blue p" "blue p \<le> 255"
    unfolding valid_pixel_def by simp_all
  from brightness_valid[OF ch] obtain s where br: "brightness p = Inr (Finite s)"
    and s0: "0 \<le> s"
    and err: "\<bar>s - (3 * of_int (red p) + 6 * of_int (green p) + of_int (blue p)) / 10\<bar>
                \<le> 2 powi (- 42)"
    by blast
  have "(3 * of_int (red p) + 6 * of_int (green p) + of_int (blue p)) / 10 \<le> (255::real)"
    using ch by simp
  moreover have "(2::real) powi (- 42) < 1" by (simp add: power_int_minus)
  ultimately have "s < 256" using err by linarith
  then have "\<lfloor>s\<rfloor> \<le> 255" by (simp add: floor_le_iff)
  moreover have "0 \<le> \<lfloor>s\<rfloor>" using s0 by simp
  moreover have "mono_pixel False p =
               Inr (p\<lparr>red := truncate s, green := truncate s, blue := truncate s\<rparr>)"
    unfolding mono_pixel_def br by simp
  ultimately show ?thesis using br err s0 by (auto simp: truncate_nonneg)
qed

lemma mono_pixel_gray:
  assumes "valid_pixel p" and "red p = g" and "green p = g" and "blue p = g"
  shows "\<exists>g'. mono_pixel False p = Inr (p\<lparr>red := g', green := g', blue := g'\<rparr>)
           \<and> (g' = g \<or> g' = g - 1)"
proof -
  from mono_pixel_valid[OF assms(1)] obtain s where
    err: "\<bar>s - (3 * of_int (red p) + 6 * of_int (green p) + of_int (blue p)) / 10\<bar>
                \<le> 2 powi (- 42)"
    and m: "mono_pixel False p =
               Inr (p\<lparr>red := truncate s, green := truncate s, blue := truncate s\<rparr>)"
    and t0: "0 \<le> truncate s"
    by blast
  have "(3 * of_int (red p) + 6 * of_int (green p) + of_int (blue p)) / 10 = (of_int g :: real)"
    unfolding assms(2,3,4) by simp
  then have e: "\<bar>s - of_int g\<bar> \<le> 2 powi (- 42)" using err by simp
  have small: "(2::real) powi (- 42) < 1" by (simp add: power_int_minus)
  have g0: "0 \<le> g" using assms(1,2) unfolding valid_pixel_def by simp
  from e have "s - of_int g \<le> 2 powi (- 42)" and "- (s - of_int g) \<le> 2 powi (- 42)"
    unfolding abs_le_iff by blast+
  with small have "of_int (g - 1) < s" and "s < of_int (g + 1)" by simp_all
  then have "g - 1 \<le> \<lfloor>s\<rfloor>" and "\<lfloor>s\<rfloor> \<le> g"
    by (simp_all add: le_floor_iff floor_le_iff less_imp_le) 
  moreover have "truncate s = \<lfloor>s\<rfloor> \<or> truncate s = \<lceil>s\<rceil>" unfolding truncate_def by simp
  ultimately have "truncate s = g \<or> truncate s = g - 1"
    using t0 g0 \<open>of_int (g - 1) < s\<close> \<open>s < of_int (g + 1)\<close>
    unfolding truncate_def by (auto split: if_splits) linarith+
  with m show ?thesis by blast
qed

lemma mono_image_valid:
  assumes "valid_image b"
  shows "\<exists>b1. mono_image b False = Inr b1 \<and> valid_image b1
           \<and> height b1 = height b \<and> width b1 = width b
           \<and> (\<forall>r<height b. \<forall>c<width b.
                 \<exists>s. brightness (b ! r ! c) = Inr (Finite s)
                   \<and> \<bar>s - (3 * of_int (red (b ! r ! c)) + 6 * of_int (green (b ! r ! c))
                             + of_int (blue (b ! r ! c))) / 10\<bar> \<le> 2 powi (- 42)
                   \<and> b1 ! r ! c = (b ! r ! c)\<lparr>red := truncate s, green := truncate s,
                                                blue := truncate s\<rparr>)"
proof -
  have v: "verify_image b" and hb: "height b < 2 ^ 63" and wb: "width b < 2 ^ 63"
    and all: "list_all (list_all valid_pixel) b"
    using assms unfolding valid_image_def by simp_all
  have "\<forall>row \<in> set b. \<forall>p \<in> set row. \<exists>q. mono_pixel False p = Inr q"
  proof (intro ballI)
    fix row p assume "row \<in> set b" and "p \<in> set row"
    then have "valid_pixel p" using all by (auto simp: list_all_iff)
    from mono_pixel_valid[OF this] show "\<exists>q. mono_pixel False p = Inr q" by blast
  qed
  then obtain b1 where b1: "for_each_pixel (mono_pixel False) b = Inr b1"
    using for_each_pixel_total by blast
  note sh = for_each_pixel_shape[OF b1 v]
  have px: "\<exists>s. brightness (b ! r ! c) = Inr (Finite s)
                   \<and> \<bar>s - (3 * of_int (red (b ! r ! c)) + 6 * of_int (green (b ! r ! c))
                             + of_int (blue (b ! r ! c))) / 10\<bar> \<le> 2 powi (- 42)
                   \<and> b1 ! r ! c = (b ! r ! c)\<lparr>red := truncate s, green := truncate s,
                                                blue := truncate s\<rparr>
                   \<and> 0 \<le> truncate s \<and> truncate s \<le> 255"
    if r: "r < height b" and c: "c < width b" for r c
  proof -
    have vp: "valid_pixel (b ! r ! c)" by (rule valid_image_nth[OF assms r c])
    have m: "mono_pixel False (b ! r ! c) = Inr (b1 ! r ! c)"
      by (rule for_each_pixel_nth[OF b1 v r c])
    from mono_pixel_valid[OF vp] m show ?thesis by auto
  qed
  have "valid_image b1"
  proof (rule valid_imageI)
    show "verify_image b1" by (rule sh(1))
    show "height b1 < 2 ^ 63" using sh(2) hb by simp
    show "width b1 < 2 ^ 63" using sh(3) wb by simp
    fix r c assume "r < height b1" and "c < width b1"
    then have r: "r < height b" and c: "c < width b" using sh by simp_all
    from px[OF r c] obtain s where
      eq: "b1 ! r ! c = (b ! r ! c)\<lparr>red := truncate s, green := truncate s,
                                    blue := truncate s\<rparr>"
      and t: "0 \<le> truncate s" "truncate s \<le> 255" by blast
    have "valid_pixel (b ! r ! c)" by (rule valid_image_nth[OF assms r c])
    then show "valid_pixel (b1 ! r ! c)" unfolding eq valid_pixel_def using t by simp
  qed
  moreover have "\<forall>r<height b. \<forall>c<width b.
                 \<exists>s. brightness (b ! r ! c) = Inr (Finite s)
                   \<and> \<bar>s - (3 * of_int (red (b ! r ! c)) + 6 * of_int (green (b ! r ! c))
                             + of_int (blue (b ! r ! c))) / 10\<bar> \<le> 2 powi (- 42)
                   \<and> b1 ! r ! c = (b ! r ! c)\<lparr>red := truncate s, green := truncate s,
                                                blue := truncate s\<rparr>"
    using px by blast
  ultimately show ?thesis using b1 sh unfolding mono_image_def by blast
qed

text \<open>
  Claim C6, as amended. On a buffer as \<^verbatim>\<open>read_image\<close> produces it, \<^verbatim>\<open>mono\<close> with
  \<^verbatim>\<open>sepia=False\<close> returns, keeps the shape and sets red, green and blue of every pixel to
  the truncated brightness, the double-precision value of
  \<^verbatim>\<open>0.3 * red + 0.6 * green + 0.1 * blue\<close> (within \<open>2 powi (- 42)\<close> of the exact sum),
  leaving alpha alone. A second application returns too and leaves every pixel either
  unchanged or with red, green and blue lowered by exactly one.
\<close>

theorem mono_twice:
  assumes "valid_image b"
  shows "\<exists>b1 b2. mono_image b False = Inr b1 \<and> mono_image b1 False = Inr b2
           \<and> verify_image b1 \<and> height b1 = height b \<and> width b1 = width b
           \<and> verify_image b2 \<and> height b2 = height b \<and> width b2 = width b
           \<and> (\<forall>r<height b. \<forall>c<width b.
                 (\<exists>s. brightness (b ! r ! c) = Inr (Finite s)
                   \<and> \<bar>s - (3 * of_int (red (b ! r ! c)) + 6 * of_int (green (b ! r ! c))
                             + of_int (blue (b ! r ! c))) / 10\<bar> \<le> 2 powi (- 42)
                   \<and> b1 ! r ! c = (b ! r ! c)\<lparr>red := truncate s, green := truncate s,
                                                blue := truncate s\<rparr>)
                 \<and> (b2 ! r ! c = b1 ! r ! c
                      \<or> b2 ! r ! c = (b1 ! r ! c)\<lparr>red := red (b1 ! r ! c) - 1,
                                                     green := green (b1 ! r ! c) - 1,
                                                     blue := blue (b1 ! r ! c) - 1\<rparr>))"
proof -
  from mono_image_valid[OF assms] obtain b1 where
    m1: "mono_image b False = Inr b1" and v1: "valid_image b1"
    and h1: "height b1 = height b" and w1: "width b1 = width b"
    and p1: "\<forall>r<height b. \<forall>c<width b.
                 \<exists>s. brightness (b ! r ! c) = Inr (Finite s)
                   \<and> \<bar>s - (3 * of_int (red (b ! r ! c)) + 6 * of_int (green (b ! r ! c))
                             + of_int (blue (b ! r ! c))) / 10\<bar> \<le> 2 powi (- 42)
                   \<and> b1 ! r ! c = (b ! r ! c)\<lparr>red := truncate s, green := truncate s,
                                                blue := truncate s\<rparr>"
    by blast
  from mono_image_valid[OF v1] obtain b2 where
    m2: "mono_image b1 False = Inr b2" and v2: "valid_image b2"
    and h2: "height b2 = height b1" and w2: "width b2 = width b1"
    by blast
  have vb1: "verify_image b1" and vb2: "verify_image b2"
    using v1 v2 unfolding valid_image_def by simp_all
  have second: "b2 ! r ! c = b1 ! r ! c
                  \<or> b2 ! r ! c = (b1 ! r ! c)\<lparr>red := red (b1 ! r ! c) - 1,
                                                 green := green (b1 ! r ! c) - 1,
                                                 blue := blue (b1 ! r ! c) - 1\<rparr>"
    if r: "r < height b" and c: "c < width b" for r c
  proof -
    from p1 r c obtain s where
      eq: "b1 ! r ! c = (b ! r ! c)\<lparr>red := truncate s, green := truncate s,
                                    blue := truncate s\<rparr>" by blast
    have r1: "r < height b1" and c1: "c < width b1" using r c h1 w1 by simp_all
    have vp: "valid_pixel (b1 ! r ! c)" by (rule valid_image_nth[OF v1 r1 c1])
    have g: "red (b1 ! r ! c) = truncate s" "green (b1 ! r ! c) = truncate s"
        "blue (b1 ! r ! c) = truncate s"
      unfolding eq by simp_all
    from mono_pixel_gray[OF vp g] obtain g' where
      m: "mono_pixel False (b1 ! r ! c) = Inr ((b1 ! r ! c)\<lparr>red := g', green := g', blue := g'\<rparr>)"
      and g': "g' = truncate s \<or> g' = truncate s - 1" by blast
    have "mono_pixel False (b1 ! r ! c) = Inr (b2 ! r ! c)"
      by (rule for_each_pixel_nth[OF m2[unfolded mono_image_def] vb1 r1 c1])
    with m have b2: "b2 ! r ! c = (b1 ! r ! c)\<lparr>red := g', green := g', blue := g'\<rparr>" by simp
    from g' show ?thesis
    proof
      assume "g' = truncate s"
      then have "b2 ! r ! c = b1 ! r ! c" unfolding b2 using g by simp
      then show ?thesis ..
    next
      assume "g' = truncate s - 1"
      then have "b2 ! r ! c = (b1 ! r ! c)\<lparr>red := red (b1 ! r ! c) - 1,
                                                 green := green (b1 ! r ! c) - 1,
                                                 blue := blue (b1 ! r ! c) - 1\<rparr>"
        unfolding b2 using g by simp
      then show ?thesis ..
    qed
  qed
  from m1 m2 vb1 vb2 h1 w1 h2 w2 p1 second show ?thesis
    by (intro exI[of _ b1] exI[of _ b2]) auto
qed

theorem mono_twice_witness:
  "valid_image [[mk_RGB 0 2 0 255]]
   \<and> (\<exists>b1 b2. mono_image [[mk_RGB 0 2 0 255]] False = Inr b1
         \<and> mono_image b1 False = Inr b2
         \<and> verify_image b2 \<and> height b2 = height [[mk_RGB 0 2 0 255]])"
proof -
  have h: "valid_image [[mk_RGB 0 2 0 255]]"
    by (simp add: valid_image_def verify_image_def height_def width_def valid_pixel_def
        mk_RGB_def)
  from mono_twice[OF h] h show ?thesis by blast
qed

text \<open>
  Claim C6 as stated fails: the pixel \<^verbatim>\<open>RGB(0, 2, 0, 255)\<close> becomes gray 1, and gray 1
  becomes gray 0, because \<^verbatim>\<open>0.3 + 0.6 + 0.1\<close> is \<^verbatim>\<open>0.9999999999999999\<close> in doubles.
\<close>

theorem mono_not_idempotent:
  "verify_image [[mk_RGB 0 2 0 255]]
   \<and> mono_image [[mk_RGB 0 2 0 255]] False = Inr [[mk_RGB 1 1 1 255]]
   \<and> mono_image [[mk_RGB 1 1 1 255]] False = Inr [[mk_RGB 0 0 0 255]]
   \<and> [[mk_RGB 0 0 0 255]] \<noteq> [[mk_RGB 1 1 1 255]]"
proof -
  have v: "verify_image [[mk_RGB 0 2 0 255]]" by (simp add: verify_image_def)
  have a: "mono_image [[mk_RGB 0 2 0 255]] False = Inr [[mk_RGB 1 1 1 255]]"
    by (rule mono_image_single[OF mono_pixel_020])
  have b: "mono_image [[mk_RGB 1 1 1 255]] False = Inr [[mk_RGB 0 0 0 255]]"
    by (rule mono_image_single[OF mono_pixel_111])
  have "mk_RGB 0 0 0 255 \<noteq> mk_RGB 1 1 1 255" by (simp add: mk_RGB_def)
  then show ?thesis using v a b by simp
qed

section \<open>Vignette\<close>

subsection \<open>Row-wise loops\<close>

lemma sequence_upt:
  assumes "sequence (map f [0..<n]) = Inr ys"
  shows "length ys = n" and "\<And>i. i < n \<Longrightarrow> f i = Inr (ys ! i)"
proof -
  have l: "list_all2 (\<lambda>x y. f x = Inr y) [0..<n] ys"
    using assms by (simp add: sequence_Inr_iff)
  then show len: "length ys = n" by (simp add: list_all2_lengthD[symmetric])
  fix i assume "i < n"
  then show "f i = Inr (ys ! i)" using list_all2_nthD[OF l, of i] by simp
qed

lemma sequence_upt_total:
  assumes "\<And>i. i < n \<Longrightarrow> \<exists>y. f i = Inr y"
  shows "\<exists>ys. sequence (map f [0..<n]) = Inr ys"
  by (rule sequence_total) (use assms in auto)

lemma rows_shape:
  assumes "sequence (map G [0..<length b]) = Inr b'"
    and "\<And>r row'. r < length b \<Longrightarrow> G r = Inr row' \<Longrightarrow> length row' = length (b ! r)"
    and "verify_image b"
  shows "verify_image b'" and "height b' = height b" and "width b' = width b"
proof -
  note s = sequence_upt[OF assms(1)]
  have "list_all2 (\<lambda>row row'. length row' = length row) b b'"
    unfolding list_all2_conv_all_nth using s assms(2) by auto
  then show "verify_image b'" and "height b' = height b" and "width b' = width b"
    by (rule same_lengths_shape[OF _ assms(3)])+
qed

lemma py_index_nat: "i < length xs \<Longrightarrow> py_index xs (int i) = Inr (xs ! i)"
  unfolding py_index_def by (simp add: Let_def)

lemma py_index_hd: "xs \<noteq> [] \<Longrightarrow> py_index xs 0 = Inr (hd xs)"
  unfolding py_index_def by (cases xs) (simp_all add: Let_def)

subsection \<open>Square roots\<close>

lemma float_of_int_medium:
  assumes "0 \<le> n" and "n < 2 ^ 1000"
  shows "float_of_int n = Inr (Finite (fl (of_int n)))" and "0 \<le> fl (of_int n)"
proof -
  have "\<bar>of_int n :: real\<bar> \<le> 2 powi 1000"
    using assms by (simp flip: of_int_abs)
  then have "rnd (of_int n) = Finite (fl (of_int n))" by (rule rnd_finite) simp_all
  then show "float_of_int n = Inr (Finite (fl (of_int n)))" unfolding float_of_int_def by simp
  show "0 \<le> fl (of_int n)" using assms(1) by (intro fl_nonneg) simp
qed

lemma py_sqrt_sum:
  assumes "dr\<^sup>2 + dc\<^sup>2 < 2 ^ 1000"
  shows "py_sqrt (dr\<^sup>2 + dc\<^sup>2) = Inr (Finite (dist dr dc))"
proof -
  have n0: "0 \<le> dr\<^sup>2 + dc\<^sup>2" by simp
  note f = float_of_int_medium[OF n0 assms]
  show ?thesis unfolding py_sqrt_def f(1) dist_def using f(2) by simp
qed

lemma dist_nonneg: "0 \<le> dist dr dc"
  unfolding dist_def by (intro fl_nonneg real_sqrt_ge_zero) simp

lemma dist_mono:
  assumes "dr\<^sup>2 + dc\<^sup>2 \<le> er\<^sup>2 + ec\<^sup>2"
  shows "dist dr dc \<le> dist er ec"
proof -
  have "(of_int (dr\<^sup>2 + dc\<^sup>2) :: real) \<le> of_int (er\<^sup>2 + ec\<^sup>2)"
    using assms by (simp only: of_int_le_iff)
  then have "fl (of_int (dr\<^sup>2 + dc\<^sup>2)) \<le> fl (of_int (er\<^sup>2 + ec\<^sup>2))" by (rule fl_mono)
  then show ?thesis unfolding dist_def by (intro fl_mono) simp
qed

lemma fl_ge_one: "1 \<le> x \<Longrightarrow> 1 \<le> fl x"
  using fl_abs_ge[of 0 x] fl_nonneg[of x] by simp

lemma dist_ge_one:
  assumes "1 \<le> dr\<^sup>2 + dc\<^sup>2"
  shows "1 \<le> dist dr dc"
proof -
  have "(1::real) \<le> of_int (dr\<^sup>2 + dc\<^sup>2)" using assms by (simp only: of_int_1_le_iff)
  then have "1 \<le> fl (of_int (dr\<^sup>2 + dc\<^sup>2))" by (rule fl_ge_one)
  then have "1 \<le> sqrt (fl (of_int (dr\<^sup>2 + dc\<^sup>2)))" by simp
  then show ?thesis unfolding dist_def by (rule fl_ge_one)
qed

lemma dist_zero [simp]: "dist 0 0 = 0"
  unfolding dist_def by simp

lemma rnd_unit:
  assumes "0 \<le> x" and "x \<le> 1"
  shows "rnd x = Finite (fl x)" and "0 \<le> fl x" and "fl x \<le> 1"
proof -
  have a: "\<bar>x\<bar> \<le> 2 powi 0" using assms by simp
  show "rnd x = Finite (fl x)" by (rule rnd_finite[OF a]) simp_all
  show "0 \<le> fl x" by (rule fl_nonneg[OF assms(1)])
  show "fl x \<le> 1" using fl_abs_le[OF a] by simp
qed

lemma vignette_factor_ok:
  assumes "1 \<le> Hd" and "dist (int r - cr) (int c - cc) \<le> Hd"
    and "(int r - cr)\<^sup>2 + (int c - cc)\<^sup>2 < 2 ^ 1000"
    and "\<forall>x. 0 \<le> x \<and> x \<le> 1 \<longrightarrow> 0 \<le> pow2 x \<and> pow2 x \<le> 1"
  shows "vignette_factor pow2 (Finite Hd) cr cc r c =
           Inr (Finite (fl (1 - pow2 (fl (dist (int r - cr) (int c - cc) / Hd)))))"
    and "0 \<le> fl (1 - pow2 (fl (dist (int r - cr) (int c - cc) / Hd)))"
    and "fl (1 - pow2 (fl (dist (int r - cr) (int c - cc) / Hd))) \<le> 1"
proof -
  define d where "d = dist (int r - cr) (int c - cc)"
  define q where "q = fl (d / Hd)"
  define s where "s = pow2 q"
  have d0: "0 \<le> d" unfolding d_def by (rule dist_nonneg)
  have H0: "0 < Hd" and Hn: "Hd \<noteq> 0" using assms(1) by simp_all
  have dq: "0 \<le> d / Hd" "d / Hd \<le> 1" using d0 H0 assms(2) unfolding d_def by simp_all
  note rq = rnd_unit[OF dq]
  have q: "0 \<le> q" "q \<le> 1" unfolding q_def using rq by simp_all
  have s: "0 \<le> s" "s \<le> 1" unfolding s_def using assms(4) q by simp_all
  have "\<bar>s\<bar> < 2 ^ 1024"
  proof -
    have "\<bar>s\<bar> \<le> 1" using s by simp
    also have "(1::real) < 2 ^ 1024" by simp
    finally show ?thesis .
  qed
  then have p: "fpow2 pow2 (Finite q) = Inr (Finite s)" unfolding s_def by simp
  have "0 \<le> 1 - s" "1 - s \<le> 1" using s by simp_all
  note rf = rnd_unit[OF this]
  have sub: "fsub (Finite 1) (Finite s) = Finite (fl (1 - s))"
    unfolding fsub_def using rf(1) by simp
  have sq: "py_sqrt ((int r - cr)\<^sup>2 + (int c - cc)\<^sup>2) = Inr (Finite d)"
    unfolding d_def by (rule py_sqrt_sum[OF assms(3)])
  have dv: "fdiv (Finite d) (Finite Hd) = Inr (Finite q)"
    using Hn rq(1) unfolding q_def by simp
  show "vignette_factor pow2 (Finite Hd) cr cc r c =
           Inr (Finite (fl (1 - pow2 (fl (dist (int r - cr) (int c - cc) / Hd)))))"
    unfolding vignette_factor_def sq using dv p sub
    unfolding s_def q_def d_def by simp
  show "0 \<le> fl (1 - pow2 (fl (dist (int r - cr) (int c - cc) / Hd)))"
    using rf(2) unfolding s_def q_def d_def .
  show "fl (1 - pow2 (fl (dist (int r - cr) (int c - cc) / Hd))) \<le> 1"
    using rf(3) unfolding s_def q_def d_def .
qed

lemma scale_channel_ok:
  assumes "0 \<le> v" and "v \<le> 255" and "0 \<le> f" and "f \<le> 1"
  shows "scale_channel (Finite f) v = Inr (round_half_even (fl (of_int v * f)))"
    and "0 \<le> round_half_even (fl (of_int v * f))"
    and "round_half_even (fl (of_int v * f)) \<le> v"
proof -
  have small: "\<bar>v\<bar> < 2 ^ 53" using assms(1,2) by simp
  have x: "0 \<le> of_int v * f" "of_int v * f \<le> of_int v"
    using assms by (simp_all add: mult_left_le)
  have "\<bar>of_int v * f\<bar> \<le> 2 powi 8" using x assms(2) by simp
  then have r: "rnd (of_int v * f) = Finite (fl (of_int v * f))" by (rule rnd_finite) simp_all
  show "scale_channel (Finite f) v = Inr (round_half_even (fl (of_int v * f)))"
    unfolding scale_channel_def float_of_int_small[OF small] using r by simp
  have "0 \<le> fl (of_int v * f)" by (rule fl_nonneg[OF x(1)])
  then show "0 \<le> round_half_even (fl (of_int v * f))"
    using round_half_even_ge[of 0] by simp
  have "fl (of_int v * f) \<le> fl (of_int v)" by (rule fl_mono[OF x(2)])
  then have "fl (of_int v * f) \<le> of_int v" unfolding fl_of_int[OF small] .
  then show "round_half_even (fl (of_int v * f)) \<le> v" by (rule round_half_even_le)
qed

lemma vignette_pixel_ok:
  assumes "valid_pixel p" and "0 \<le> f" and "f \<le> 1"
  shows "vignette_pixel (Finite f) p =
           Inr (p\<lparr>red := round_half_even (fl (of_int (red p) * f)),
                   green := round_half_even (fl (of_int (green p) * f)),
                   blue := round_half_even (fl (of_int (blue p) * f))\<rparr>)"
proof -
  from assms(1) have ch: "0 \<le> red p" "red p \<le> 255" "0 \<le> green p" "green p \<le> 255"
      "0 \<le> blue p" "blue p \<le> 255"
    unfolding valid_pixel_def by simp_all
  show ?thesis unfolding vignette_pixel_def
    by (simp add: scale_channel_ok(1)[OF ch(1,2) assms(2,3)]
        scale_channel_ok(1)[OF ch(3,4) assms(2,3)] scale_channel_ok(1)[OF ch(5,6) assms(2,3)])
qed

lemma centre_distance:
  assumes "r < h"
  shows "(int r - int h div 2)\<^sup>2 \<le> (int h div 2)\<^sup>2"
proof -
  have "\<bar>int r - int h div 2\<bar> \<le> \<bar>int h div 2\<bar>" using assms by (simp add: abs_le_iff)
  then show ?thesis by (simp only: abs_le_square_iff)
qed

lemma half_square_bound:
  assumes "h < 2 ^ 63"
  shows "(int h div 2)\<^sup>2 < 2 ^ 999"
proof -
  have "int h div 2 \<le> 2 ^ 63" using assms by (simp add: nat_less_iff)
  moreover have "0 \<le> int h div 2" by simp
  ultimately have "(int h div 2)\<^sup>2 \<le> (2 ^ 63)\<^sup>2" by (rule power_mono)
  also have "((2::int) ^ 63)\<^sup>2 < 2 ^ 999" by simp
  finally show ?thesis .
qed

lemma vignette_shape:
  assumes "vignette pow2 b = Inr b'" and "verify_image b"
  shows "verify_image b'" and "height b' = height b" and "width b' = width b"
proof -
  have ne: "b \<noteq> []" and all: "\<forall>row \<in> set b. length row = width b"
    using assms(2) unfolding verify_image_iff by auto
  have first: "py_index b 0 = Inr (hd b)" by (rule py_index_hd[OF ne])
  obtain H where
    rows: "sequence (map (\<lambda>r. vignette_row pow2 H (int (length b) div 2)
                               (int (length (hd b)) div 2) (length (hd b)) r (b ! r))
                      [0..<length b]) = Inr b'"
    using assms(1) unfolding vignette_def first
    by (auto simp: Let_def then_do_Inr_iff)
  have len: "length row' = length (b ! r)"
    if r: "r < length b"
      and row: "vignette_row pow2 H (int (length b) div 2) (int (length (hd b)) div 2)
                  (length (hd b)) r (b ! r) = Inr row'" for r row'
  proof -
    from row obtain ps where
      ps: "sequence (map (\<lambda>c.
          then_do (vignette_factor pow2 H (int (length b) div 2) (int (length (hd b)) div 2) r c)
            (\<lambda>factor. then_do (py_index (b ! r) (int c)) (\<lambda>pixel. vignette_pixel factor pixel)))
          [0..<length (hd b)]) = Inr ps"
      and row': "row' = ps @ drop (length (hd b)) (b ! r)"
      unfolding vignette_row_def by (auto simp: then_do_Inr_iff)
    have "length ps = length (hd b)" by (rule sequence_upt(1)[OF ps])
    moreover have "length (b ! r) = length (hd b)"
      using all r unfolding width_def by simp
    ultimately show ?thesis unfolding row' by simp
  qed
  show "verify_image b'" and "height b' = height b" and "width b' = width b"
    by (rule rows_shape[OF rows len assms(2)]; assumption)+
qed

lemma vignette_valid:
  assumes "valid_image b" and "\<not> (height b = 1 \<and> width b = 1)"
    and pow2: "\<forall>x. 0 \<le> x \<and> x \<le> 1 \<longrightarrow> 0 \<le> pow2 x \<and> pow2 x \<le> 1"
  shows "\<exists>b'. vignette pow2 b = Inr b'
          \<and> (\<forall>r<height b. \<forall>c<width b.
                \<exists>f. f = fl (1 - pow2 (fl (dist (int r - int (height b) div 2)
                                                (int c - int (width b) div 2)
                                           / dist (int (height b) div 2) (int (width b) div 2))))
                  \<and> 0 \<le> f \<and> f \<le> 1
                  \<and> b' ! r ! c =
                      (b ! r ! c)\<lparr>red := round_half_even (fl (of_int (red (b ! r ! c)) * f)),
                                   green := round_half_even (fl (of_int (green (b ! r ! c)) * f)),
                                   blue := round_half_even (fl (of_int (blue (b ! r ! c)) * f))\<rparr>)"
proof -
  define cr where "cr = int (height b) div 2"
  define cc where "cc = int (width b) div 2"
  define Hd where "Hd = dist cr cc"
  define F where "F r c = fl (1 - pow2 (fl (dist (int r - cr) (int c - cc) / Hd)))" for r c
  define px where "px r c =
      (b ! r ! c)\<lparr>red := round_half_even (fl (of_int (red (b ! r ! c)) * F r c)),
                   green := round_half_even (fl (of_int (green (b ! r ! c)) * F r c)),
                   blue := round_half_even (fl (of_int (blue (b ! r ! c)) * F r c))\<rparr>" for r c
  have v: "verify_image b" and hb: "height b < 2 ^ 63" and wb: "width b < 2 ^ 63"
    using assms(1) unfolding valid_image_def by simp_all
  have ne: "b \<noteq> []" and all: "\<forall>row \<in> set b. length row = width b"
    using v unfolding verify_image_iff by auto
  have hpos: "0 < height b" and wpos: "0 < width b"
    using v by (simp_all add: verify_image_height_pos verify_image_width_pos)
  have first: "py_index b 0 = Inr (hd b)" by (rule py_index_hd[OF ne])
  have big: "cr\<^sup>2 + cc\<^sup>2 < 2 ^ 1000"
    using half_square_bound[OF hb] half_square_bound[OF wb] unfolding cr_def cc_def by simp
  have H: "py_sqrt (cr\<^sup>2 + cc\<^sup>2) = Inr (Finite Hd)"
    unfolding Hd_def by (rule py_sqrt_sum[OF big])
  have "1 \<le> cr \<or> 1 \<le> cc" using assms(2) hpos wpos unfolding cr_def cc_def by linarith
  then have "1 \<le> cr\<^sup>2 + cc\<^sup>2"
  proof
    assume "1 \<le> cr"
    then have "1 \<le> cr\<^sup>2" by (simp add: power2_eq_square mult_le_cancel_left1)
         (metis mult_mono' one_le_numeral order_trans zero_le_one mult_1)
    then show ?thesis using zero_le_power2[of cc] by linarith
  next
    assume "1 \<le> cc"
    then have "1 \<le> cc\<^sup>2" by (simp add: power2_eq_square mult_le_cancel_left1)
         (metis mult_mono' one_le_numeral order_trans zero_le_one mult_1)
    then show ?thesis using zero_le_power2[of cr] by linarith
  qed
  then have H1: "1 \<le> Hd" unfolding Hd_def by (rule dist_ge_one)
  have le: "(int r - cr)\<^sup>2 + (int c - cc)\<^sup>2 \<le> cr\<^sup>2 + cc\<^sup>2"
    if "r < height b" and "c < width b" for r c
    using centre_distance[OF that(1)] centre_distance[OF that(2)]
    unfolding cr_def cc_def by simp
  have fac: "vignette_factor pow2 (Finite Hd) cr cc r c = Inr (Finite (F r c))"
      and F0: "0 \<le> F r c" and F1: "F r c \<le> 1"
    if r: "r < height b" and c: "c < width b" for r c
  proof -
    have d: "dist (int r - cr) (int c - cc) \<le> Hd"
      unfolding Hd_def by (rule dist_mono[OF le[OF r c]])
    have sm: "(int r - cr)\<^sup>2 + (int c - cc)\<^sup>2 < 2 ^ 1000" using le[OF r c] big by simp
    show "vignette_factor pow2 (Finite Hd) cr cc r c = Inr (Finite (F r c))"
      unfolding F_def by (rule vignette_factor_ok(1)[OF H1 d sm pow2])
    show "0 \<le> F r c" unfolding F_def by (rule vignette_factor_ok(2)[OF H1 d sm pow2])
    show "F r c \<le> 1" unfolding F_def by (rule vignette_factor_ok(3)[OF H1 d sm pow2])
  qed
  have cell: "then_do (vignette_factor pow2 (Finite Hd) cr cc r c)
            (\<lambda>factor. then_do (py_index (b ! r) (int c)) (\<lambda>pixel. vignette_pixel factor pixel))
          = Inr (px r c)"
    if r: "r < height b" and c: "c < width b" for r c
  proof -
    have rl: "r < length b" using r unfolding height_def .
    have cl: "c < length (b ! r)" using verify_image_nth[OF v rl] c by simp
    have vp: "valid_pixel (b ! r ! c)" by (rule valid_image_nth[OF assms(1) r c])
    show ?thesis
      unfolding fac[OF r c] px_def
      by (simp add: py_index_nat[OF cl] vignette_pixel_ok[OF vp F0[OF r c] F1[OF r c]])
  qed
  have row: "vignette_row pow2 (Finite Hd) cr cc (width b) r (b ! r) = Inr (map (px r) [0..<width b])"
    if r: "r < height b" for r
  proof -
    have rl: "r < length b" using r unfolding height_def .
    have "list_all2 (\<lambda>c y. then_do (vignette_factor pow2 (Finite Hd) cr cc r c)
            (\<lambda>factor. then_do (py_index (b ! r) (int c)) (\<lambda>pixel. vignette_pixel factor pixel))
          = Inr y) [0..<width b] (map (px r) [0..<width b])"
      unfolding list_all2_conv_all_nth using cell[OF r] by simp
    then have "sequence (map (\<lambda>c. then_do (vignette_factor pow2 (Finite Hd) cr cc r c)
            (\<lambda>factor. then_do (py_index (b ! r) (int c)) (\<lambda>pixel. vignette_pixel factor pixel)))
          [0..<width b]) = Inr (map (px r) [0..<width b])"
      by (simp only: sequence_Inr_iff)
    moreover have "drop (width b) (b ! r) = []" using verify_image_nth[OF v rl] by simp
    ultimately show ?thesis unfolding vignette_row_def by simp
  qed
  have "list_all2 (\<lambda>r y. vignette_row pow2 (Finite Hd) cr cc (width b) r (b ! r) = Inr y)
          [0..<height b] (map (\<lambda>r. map (px r) [0..<width b]) [0..<height b])"
    unfolding list_all2_conv_all_nth using row by simp
  then have "sequence (map (\<lambda>r. vignette_row pow2 (Finite Hd) cr cc (width b) r (b ! r))
                        [0..<height b])
           = Inr (map (\<lambda>r. map (px r) [0..<width b]) [0..<height b])"
    by (simp only: sequence_Inr_iff)
  then have res: "vignette pow2 b = Inr (map (\<lambda>r. map (px r) [0..<width b]) [0..<height b])"
    unfolding vignette_def first
    by (simp add: Let_def H cr_def[symmetric] cc_def[symmetric] height_def[symmetric]
        width_def[symmetric])
  show ?thesis
  proof (intro exI conjI allI impI)
    show "vignette pow2 b = Inr (map (\<lambda>r. map (px r) [0..<width b]) [0..<height b])"
      by (rule res)
  next
    fix r c assume r: "r < height b" and c: "c < width b"
    show "F r c = fl (1 - pow2 (fl (dist (int r - int (height b) div 2)
                                                (int c - int (width b) div 2)
                                           / dist (int (height b) div 2) (int (width b) div 2))))"
      unfolding F_def Hd_def cr_def cc_def ..
    show "0 \<le> F r c" by (rule F0[OF r c])
    show "F r c \<le> 1" by (rule F1[OF r c])
    show "map (\<lambda>r. map (px r) [0..<width b]) [0..<height b] ! r ! c =
            (b ! r ! c)\<lparr>red := round_half_even (fl (of_int (red (b ! r ! c)) * F r c)),
                         green := round_half_even (fl (of_int (green (b ! r ! c)) * F r c)),
                         blue := round_half_even (fl (of_int (blue (b ! r ! c)) * F r c))\<rparr>"
      using r c by (simp add: px_def)
  qed
qed

lemma pow2_rounded_unit: "\<forall>x. 0 \<le> x \<and> x \<le> 1 \<longrightarrow> 0 \<le> pow2_rounded x \<and> pow2_rounded x \<le> 1"
proof (intro allI impI)
  fix x :: real assume x: "0 \<le> x \<and> x \<le> 1"
  then have "0 \<le> x * x" and "x * x \<le> 1" by (simp_all add: mult_le_one)
  from rnd_unit(2,3)[OF this] show "0 \<le> pow2_rounded x \<and> pow2_rounded x \<le> 1"
    unfolding pow2_rounded_def by simp
qed

text \<open>
  On a buffer as \<^verbatim>\<open>read_image\<close> produces it, other than the single pixel, and with a
  \<^verbatim>\<open>pow\<close> that maps the unit interval into itself, as a rounded square does, \<^verbatim>\<open>vignette\<close>
  returns and keeps the shape; at every position the factor is the double
  \<^verbatim>\<open>1 - (d / H)**2\<close>, with \<^verbatim>\<open>d\<close> and \<^verbatim>\<open>H\<close> the rounded distances to the centre
  \<^verbatim>\<open>(height // 2, width // 2)\<close> and from the centre to \<^verbatim>\<open>(0, 0)\<close>; red, green and blue
  become \<^verbatim>\<open>round(old * factor)\<close> and alpha is unchanged. Nothing is clamped, and nothing
  needs to be: the position \<open>(0, 0)\<close> is a farthest one, the factor lies between 0 and 1,
  and every new channel lies between 0 and its old value.
\<close>

lemma vignette_channels:
  assumes "valid_image b" and "\<not> (height b = 1 \<and> width b = 1)"
    and "\<forall>x. 0 \<le> x \<and> x \<le> 1 \<longrightarrow> 0 \<le> pow2 x \<and> pow2 x \<le> 1"
  shows "\<exists>b'. vignette pow2 b = Inr b'
          \<and> verify_image b' \<and> height b' = height b \<and> width b' = width b
          \<and> (\<forall>r<height b. \<forall>c<width b.
                \<exists>f. f = fl (1 - pow2 (fl (dist (int r - int (height b) div 2)
                                                (int c - int (width b) div 2)
                                           / dist (int (height b) div 2) (int (width b) div 2))))
                  \<and> 0 \<le> f \<and> f \<le> 1
                  \<and> b' ! r ! c =
                      (b ! r ! c)\<lparr>red := round_half_even (fl (of_int (red (b ! r ! c)) * f)),
                                   green := round_half_even (fl (of_int (green (b ! r ! c)) * f)),
                                   blue := round_half_even (fl (of_int (blue (b ! r ! c)) * f))\<rparr>
                  \<and> alpha (b' ! r ! c) = alpha (b ! r ! c)
                  \<and> 0 \<le> red (b' ! r ! c) \<and> red (b' ! r ! c) \<le> red (b ! r ! c)
                  \<and> 0 \<le> green (b' ! r ! c) \<and> green (b' ! r ! c) \<le> green (b ! r ! c)
                  \<and> 0 \<le> blue (b' ! r ! c) \<and> blue (b' ! r ! c) \<le> blue (b ! r ! c))"
proof -
  from vignette_valid[OF assms] obtain b' where
    res: "vignette pow2 b = Inr b'"
    and px: "\<forall>r<height b. \<forall>c<width b.
                \<exists>f. f = fl (1 - pow2 (fl (dist (int r - int (height b) div 2)
                                                (int c - int (width b) div 2)
                                           / dist (int (height b) div 2) (int (width b) div 2))))
                  \<and> 0 \<le> f \<and> f \<le> 1
                  \<and> b' ! r ! c =
                      (b ! r ! c)\<lparr>red := round_half_even (fl (of_int (red (b ! r ! c)) * f)),
                                   green := round_half_even (fl (of_int (green (b ! r ! c)) * f)),
                                   blue := round_half_even (fl (of_int (blue (b ! r ! c)) * f))\<rparr>"
    by blast
  have v: "verify_image b" using assms(1) unfolding valid_image_def by simp
  note sh = vignette_shape[OF res v]
  have "\<exists>f. f = fl (1 - pow2 (fl (dist (int r - int (height b) div 2)
                                                (int c - int (width b) div 2)
                                           / dist (int (height b) div 2) (int (width b) div 2))))
                  \<and> 0 \<le> f \<and> f \<le> 1
                  \<and> b' ! r ! c =
                      (b ! r ! c)\<lparr>red := round_half_even (fl (of_int (red (b ! r ! c)) * f)),
                                   green := round_half_even (fl (of_int (green (b ! r ! c)) * f)),
                                   blue := round_half_even (fl (of_int (blue (b ! r ! c)) * f))\<rparr>
                  \<and> alpha (b' ! r ! c) = alpha (b ! r ! c)
                  \<and> 0 \<le> red (b' ! r ! c) \<and> red (b' ! r ! c) \<le> red (b ! r ! c)
                  \<and> 0 \<le> green (b' ! r ! c) \<and> green (b' ! r ! c) \<le> green (b ! r ! c)
                  \<and> 0 \<le> blue (b' ! r ! c) \<and> blue (b' ! r ! c) \<le> blue (b ! r ! c)"
    if r: "r < height b" and c: "c < width b" for r c
  proof -
    from px r c obtain f where
      f: "f = fl (1 - pow2 (fl (dist (int r - int (height b) div 2)
                                                (int c - int (width b) div 2)
                                           / dist (int (height b) div 2) (int (width b) div 2))))"
      and f0: "0 \<le> f" and f1: "f \<le> 1"
      and eq: "b' ! r ! c =
                      (b ! r ! c)\<lparr>red := round_half_even (fl (of_int (red (b ! r ! c)) * f)),
                                   green := round_half_even (fl (of_int (green (b ! r ! c)) * f)),
                                   blue := round_half_even (fl (of_int (blue (b ! r ! c)) * f))\<rparr>"
      by blast
    have "valid_pixel (b ! r ! c)" by (rule valid_image_nth[OF assms(1) r c])
    then have ch: "0 \<le> red (b ! r ! c)" "red (b ! r ! c) \<le> 255"
        "0 \<le> green (b ! r ! c)" "green (b ! r ! c) \<le> 255"
        "0 \<le> blue (b ! r ! c)" "blue (b ! r ! c) \<le> 255"
      unfolding valid_pixel_def by simp_all
    note R = scale_channel_ok(2,3)[OF ch(1,2) f0 f1]
    note G = scale_channel_ok(2,3)[OF ch(3,4) f0 f1]
    note B = scale_channel_ok(2,3)[OF ch(5,6) f0 f1]
    have al: "alpha (b' ! r ! c) = alpha (b ! r ! c)"
      and re: "red (b' ! r ! c) = round_half_even (fl (of_int (red (b ! r ! c)) * f))"
      and ge: "green (b' ! r ! c) = round_half_even (fl (of_int (green (b ! r ! c)) * f))"
      and be: "blue (b' ! r ! c) = round_half_even (fl (of_int (blue (b ! r ! c)) * f))"
      unfolding eq by simp_all
    have bounds: "0 \<le> red (b' ! r ! c)" "red (b' ! r ! c) \<le> red (b ! r ! c)"
        "0 \<le> green (b' ! r ! c)" "green (b' ! r ! c) \<le> green (b ! r ! c)"
        "0 \<le> blue (b' ! r ! c)" "blue (b' ! r ! c) \<le> blue (b ! r ! c)"
      unfolding re ge be by (rule R G B)+
    show ?thesis
      by (intro exI[of _ f] conjI) (rule f f0 f1 eq al bounds)+
  qed
  then have "\<forall>r<height b. \<forall>c<width b.
                \<exists>f. f = fl (1 - pow2 (fl (dist (int r - int (height b) div 2)
                                                (int c - int (width b) div 2)
                                           / dist (int (height b) div 2) (int (width b) div 2))))
                  \<and> 0 \<le> f \<and> f \<le> 1
                  \<and> b' ! r ! c =
                      (b ! r ! c)\<lparr>red := round_half_even (fl (of_int (red (b ! r ! c)) * f)),
                                   green := round_half_even (fl (of_int (green (b ! r ! c)) * f)),
                                   blue := round_half_even (fl (of_int (blue (b ! r ! c)) * f))\<rparr>
                  \<and> alpha (b' ! r ! c) = alpha (b ! r ! c)
                  \<and> 0 \<le> red (b' ! r ! c) \<and> red (b' ! r ! c) \<le> red (b ! r ! c)
                  \<and> 0 \<le> green (b' ! r ! c) \<and> green (b' ! r ! c) \<le> green (b ! r ! c)
                  \<and> 0 \<le> blue (b' ! r ! c) \<and> blue (b' ! r ! c) \<le> blue (b ! r ! c)"
    by (intro allI impI)
  with res sh show ?thesis by (intro exI[of _ b'] conjI)
qed

lemma vignette_channels_example:
  "valid_image [[mk_RGB 10 20 30 255, mk_RGB 40 50 60 255]]
   \<and> \<not> (height [[mk_RGB 10 20 30 255, mk_RGB 40 50 60 255]] = 1
        \<and> width [[mk_RGB 10 20 30 255, mk_RGB 40 50 60 255]] = 1)
   \<and> (\<exists>b'. vignette pow2_rounded [[mk_RGB 10 20 30 255, mk_RGB 40 50 60 255]] = Inr b'
         \<and> verify_image b'
         \<and> width b' = width [[mk_RGB 10 20 30 255, mk_RGB 40 50 60 255]])"
proof -
  have h1: "valid_image [[mk_RGB 10 20 30 255, mk_RGB 40 50 60 255]]"
    by (simp add: valid_image_def verify_image_def height_def width_def valid_pixel_def
        mk_RGB_def)
  have h2: "\<not> (height [[mk_RGB 10 20 30 255, mk_RGB 40 50 60 255]] = 1
        \<and> width [[mk_RGB 10 20 30 255, mk_RGB 40 50 60 255]] = 1)"
    by (simp add: width_def)
  from vignette_channels[OF h1 h2 pow2_rounded_unit] h1 h2 show ?thesis by blast
qed

text \<open>
  Claim C9. On the buffer of a single pixel the centre is \<open>(0, 0)\<close>, so \<^verbatim>\<open>H\<close> is \<^verbatim>\<open>0.0\<close> and
  \<^verbatim>\<open>d / H\<close> raises ZeroDivisionError at the first position, before any pixel is changed and
  whatever \<^verbatim>\<open>pow\<close> computes: on this non-empty rectangular buffer \<^verbatim>\<open>vignette\<close> sets no
  channel to \<^verbatim>\<open>round(old * factor)\<close> and does not return.
\<close>

theorem vignette_single_pixel:
  "valid_image [[mk_RGB 10 20 30 255]]
   \<and> height [[mk_RGB 10 20 30 255]] = 1 \<and> width [[mk_RGB 10 20 30 255]] = 1
   \<and> vignette pw [[mk_RGB 10 20 30 255]] = Inl ZeroDivisionError"
proof -
  have v: "valid_image [[mk_RGB 10 20 30 255]]"
    by (simp add: valid_image_def verify_image_def height_def width_def valid_pixel_def
        mk_RGB_def)
  have hw: "height [[mk_RGB 10 20 30 255]] = 1" "width [[mk_RGB 10 20 30 255]] = 1"
    by (simp_all add: height_def width_def)
  have s: "py_sqrt 0 = Inr (Finite 0)"
    using py_sqrt_sum[of 0 0] by simp
  have f: "vignette_factor pw (Finite 0) 0 0 0 0 = Inl ZeroDivisionError"
    unfolding vignette_factor_def using s by simp
  have i: "py_index [[mk_RGB 10 20 30 255]] 0 = Inr [mk_RGB 10 20 30 255]"
    by (simp add: py_index_def)
  have r: "vignette_row pw (Finite 0) 0 0 (Suc 0) 0 [mk_RGB 10 20 30 255]
             = Inl ZeroDivisionError"
    unfolding vignette_row_def by (simp add: f)
  have "vignette pw [[mk_RGB 10 20 30 255]] = Inl ZeroDivisionError"
    unfolding vignette_def i by (simp add: Let_def s r)
  with v hw show ?thesis by simp
qed

section \<open>Blur\<close>

subsection \<open>Rounding a quotient of integers\<close>

lemma round_half_even_below:
  assumes "of_int k \<le> x" and "x < of_int k + 1 / 2"
  shows "round_half_even x = k"
proof -
  have "\<lfloor>x\<rfloor> = k" using assms by (simp add: floor_eq_iff)
  then show ?thesis unfolding round_half_even_def Let_def using assms by simp
qed

lemma round_half_even_above:
  assumes "of_int k + 1 / 2 < x" and "x \<le> of_int k + 1"
  shows "round_half_even x = k + 1"
proof (cases "x = of_int k + 1")
  case True
  then have "x = of_int (k + 1)" by simp
  then show ?thesis by (simp only: round_half_even_of_int)
next
  case False
  then have "\<lfloor>x\<rfloor> = k" using assms by (simp add: floor_eq_iff)
  then show ?thesis unfolding round_half_even_def Let_def using assms by simp
qed

lemma fl_half_integer:
  assumes "0 \<le> k" and "k < 2 ^ 52"
  shows "fl (of_int k + 1 / 2) = of_int k + 1 / 2"
proof (rule fl_representable[of _ "2 * k + 1" "- 1"])
  show "(of_int k + 1 / 2 :: real) = of_int (2 * k + 1) * 2 powi (- 1)"
    by (simp add: power_int_minus field_simps)
  show "\<bar>2 * k + 1\<bar> < 2 ^ 53" using assms by simp
qed simp

lemma quotient_gap:
  fixes t n k :: int
  assumes "0 < n" and "of_int t / of_int n \<noteq> (of_int k + 1 / 2 :: real)"
  shows "1 / (2 * of_int n) \<le> \<bar>of_int t / of_int n - (of_int k + 1 / 2 :: real)\<bar>"
proof -
  have n: "(0::real) < of_int n" using assms(1) by simp
  have eq: "of_int t / of_int n - (of_int k + 1 / 2 :: real)
              = of_int (2 * t - (2 * k + 1) * n) / (2 * of_int n)"
    using n by (simp add: field_simps)
  have "2 * t - (2 * k + 1) * n \<noteq> 0"
  proof
    assume z: "2 * t - (2 * k + 1) * n = 0"
    have "of_int t / of_int n - (of_int k + 1 / 2 :: real) = 0" unfolding eq z by simp
    then show False using assms(2) by simp
  qed
  then have "1 \<le> \<bar>2 * t - (2 * k + 1) * n\<bar>" by simp
  then have "(1::real) \<le> \<bar>of_int (2 * t - (2 * k + 1) * n)\<bar>"
    by (metis of_int_1_le_iff of_int_abs)
  then have "1 / (2 * of_int n) \<le> \<bar>of_int (2 * t - (2 * k + 1) * n) :: real\<bar> / (2 * of_int n)"
    using n by (simp add: divide_right_mono)
  also have "\<dots> = \<bar>of_int (2 * t - (2 * k + 1) * n) / (2 * of_int n) :: real\<bar>"
    using n by (simp add: abs_divide del: of_int_diff of_int_mult)
  finally show ?thesis unfolding eq .
qed

lemma fl_not_half:
  fixes t n k :: int
  assumes "0 \<le> t" and "0 < n" and "t < 2 ^ 52" and "n < 2 ^ 1000"
    and "of_int t / of_int n \<noteq> (of_int k + 1 / 2 :: real)"
  shows "fl (of_int t / of_int n) \<noteq> of_int k + 1 / 2"
proof
  define q :: real where "q = of_int t / of_int n"
  assume "fl (of_int t / of_int n) = of_int k + 1 / 2"
  then have f: "fl q = of_int k + 1 / 2" unfolding q_def .
  have n: "(0::real) < of_int n" using assms(2) by simp
  have gap: "1 / (2 * of_int n) \<le> \<bar>q - (of_int k + 1 / 2)\<bar>"
    unfolding q_def by (rule quotient_gap[OF assms(2,5)])
  have "t \<noteq> 0"
  proof
    assume "t = 0"
    then have "fl q = 0" unfolding q_def by simp
    with f have "of_int (2 * k + 1) = (0::real)" by simp
    then have "2 * k + 1 = 0" by (simp only: of_int_eq_0_iff)
    then show False by presburger
  qed
  then have t1: "1 \<le> t" using assms(1) by simp
  have q0: "0 < q" unfolding q_def using t1 n by simp
  have "(2::real) powi (- 1022) \<le> 1 / 2 ^ 1000" by (simp add: power_int_minus field_simps)
  also have "\<dots> \<le> 1 / of_int n"
  proof -
    have "(of_int n :: real) \<le> 2 ^ 1000" using assms(4) by (simp flip: of_int_less_iff)
    then show ?thesis using n by (simp add: field_simps)
  qed
  also have "\<dots> \<le> q" unfolding q_def using t1 n by (simp add: divide_right_mono)
  finally have "2 powi (- 1022) \<le> \<bar>q\<bar>" using q0 by simp
  then have "\<bar>fl q - q\<bar> \<le> \<bar>q\<bar> / 2 ^ 53" by (rule fl_error_rel)
  then have "\<bar>q - (of_int k + 1 / 2)\<bar> \<le> q / 2 ^ 53" unfolding f using q0 by (simp add: abs_minus_commute)
  with gap have "1 / (2 * of_int n) \<le> q / 2 ^ 53" by linarith
  then have "2 ^ 52 \<le> (of_int t :: real)" unfolding q_def using n by (simp add: field_simps)
  then have "(2::int) ^ 52 \<le> t" by (metis of_int_le_iff of_int_numeral of_int_power)
  then show False using assms(3) by simp
qed

lemma round_fl_quotient:
  fixes t n :: int
  assumes "0 \<le> t" and "0 < n" and "t < 2 ^ 52" and "n < 2 ^ 1000"
  shows "round_half_even (fl (of_int t / of_int n)) = round_half_even (of_int t / of_int n)"
proof -
  define q :: real where "q = of_int t / of_int n"
  define k where "k = \<lfloor>q\<rfloor>"
  have n: "(0::real) < of_int n" using assms(2) by simp
  have q0: "0 \<le> q" unfolding q_def using assms(1) n by simp
  have k0: "0 \<le> k" unfolding k_def using q0 by simp
  have "q \<le> of_int t" unfolding q_def using assms(1,2)
    by (simp add: divide_le_eq mult_le_cancel_left1)
  then have "k \<le> t" unfolding k_def by (simp add: floor_le_iff)
  then have k52: "k < 2 ^ 52" using assms(3) by simp
  have kq: "of_int k \<le> q" and qk: "q < of_int k + 1" unfolding k_def by linarith+
  have fk: "fl (of_int k) = of_int k" using k0 k52 by (intro fl_of_int) simp
  have fk1: "fl (of_int (k + 1)) = of_int (k + 1)" using k0 k52 by (intro fl_of_int) simp
  have fm: "fl (of_int k + 1 / 2) = of_int k + 1 / 2" by (rule fl_half_integer[OF k0 k52])
  have lo: "of_int k \<le> fl q" using fl_mono[OF kq] fk by simp
  have hi: "fl q \<le> of_int k + 1" using fl_mono[of q "of_int (k + 1)"] qk fk1 by simp
  consider "q = of_int k + 1 / 2" | "q < of_int k + 1 / 2" | "of_int k + 1 / 2 < q" by linarith
  then have "round_half_even (fl q) = round_half_even q"
  proof cases
    case 1
    then show ?thesis using fm by simp
  next
    case 2
    then have ne: "of_int t / of_int n \<noteq> (of_int k + 1 / 2 :: real)" unfolding q_def by simp
    have "fl q \<le> of_int k + 1 / 2" using fl_mono[of q "of_int k + 1 / 2"] 2 fm by simp
    moreover have "fl q \<noteq> of_int k + 1 / 2"
      unfolding q_def by (rule fl_not_half[OF assms ne])
    ultimately have "fl q < of_int k + 1 / 2" by simp
    then have "round_half_even (fl q) = k" using lo by (intro round_half_even_below) auto
    moreover have "round_half_even q = k" using kq 2 by (intro round_half_even_below) auto
    ultimately show ?thesis by simp
  next
    case 3
    then have ne: "of_int t / of_int n \<noteq> (of_int k + 1 / 2 :: real)" unfolding q_def by simp
    have "of_int k + 1 / 2 \<le> fl q" using fl_mono[of "of_int k + 1 / 2" q] 3 fm by simp
    moreover have "fl q \<noteq> of_int k + 1 / 2"
      unfolding q_def by (rule fl_not_half[OF assms ne])
    ultimately have "of_int k + 1 / 2 < fl q" by simp
    then have "round_half_even (fl q) = k + 1" using hi by (intro round_half_even_above) auto
    moreover have "round_half_even q = k + 1" using qk 3 by (intro round_half_even_above) auto
    ultimately show ?thesis by simp
  qed
  then show ?thesis unfolding q_def .
qed

subsection \<open>Windows\<close>

lemma window_product:
  "window b radius r c =
     {max 0 (int r - radius)..min (int (height b) - 1) (int r + radius)}
     \<times> {max 0 (int c - radius)..min (int (width b) - 1) (int c + radius)}"
  unfolding window_def by auto

lemma cells_product: "cells rl rh cl ch = List.product [rl..rh] [cl..ch]"
  unfolding cells_def by (simp add: product_concat_map)

lemma set_cells: "set (cells rl rh cl ch) = {rl..rh} \<times> {cl..ch}"
  unfolding cells_product by simp

lemma distinct_cells: "distinct (cells rl rh cl ch)"
  unfolding cells_product by (simp add: distinct_product)

lemma window_cells:
  "set (cells (max 0 (int r - radius)) (min (int (height b) - 1) (int r + radius))
              (max 0 (int c - radius)) (min (int (width b) - 1) (int c + radius)))
     = window b radius r c"
  unfolding set_cells window_product ..

lemma window_self:
  assumes "0 \<le> radius" and "r < height b" and "c < width b"
  shows "(int r, int c) \<in> window b radius r c"
  using assms unfolding window_def by simp

lemma finite_window: "finite (window b radius r c)"
  unfolding window_product by simp

lemma read_cells_ok:
  assumes "verify_image b"
    and "\<forall>(i, j) \<in> set ijs. 0 \<le> i \<and> i < int (height b) \<and> 0 \<le> j \<and> j < int (width b)"
  shows "read_cells b ijs = Inr (map (\<lambda>(i, j). b ! nat i ! nat j) ijs)"
proof -
  have "list_all2 (\<lambda>ij y. (case ij of (i, j) \<Rightarrow> then_do (py_index b i) (\<lambda>row. py_index row j))
                            = Inr y) ijs (map (\<lambda>(i, j). b ! nat i ! nat j) ijs)"
    unfolding list_all2_conv_all_nth
  proof (intro conjI allI impI)
    show "length ijs = length (map (\<lambda>(i, j). b ! nat i ! nat j) ijs)" by simp
    fix k assume k: "k < length ijs"
    obtain i j where ij: "ijs ! k = (i, j)" by (cases "ijs ! k")
    have "(i, j) \<in> set ijs" using k ij by (metis nth_mem)
    then have r: "0 \<le> i" "i < int (height b)" "0 \<le> j" "j < int (width b)"
      using assms(2) by auto
    have rl: "nat i < length b" using r(1,2) unfolding height_def by simp
    have cl: "nat j < length (b ! nat i)" using verify_image_nth[OF assms(1) rl] r(3,4) by simp
    have "py_index b i = Inr (b ! nat i)" using py_index_nat[OF rl] r(1) by simp
    moreover have "py_index (b ! nat i) j = Inr (b ! nat i ! nat j)"
      using py_index_nat[OF cl] r(3) by simp
    ultimately show "(case ijs ! k of (i, j) \<Rightarrow> then_do (py_index b i) (\<lambda>row. py_index row j))
                       = Inr (map (\<lambda>(i, j). b ! nat i ! nat j) ijs ! k)"
      using k ij by simp
  qed
  then show ?thesis unfolding read_cells_def by (simp only: sequence_Inr_iff)
qed

lemma sum_list_bounds:
  assumes "\<forall>v \<in> set vs. 0 \<le> v \<and> v \<le> (255::int)"
  shows "0 \<le> sum_list vs" and "sum_list vs \<le> 255 * int (length vs)"
  using assms by (induction vs) auto

lemma average_ok:
  assumes "vs \<noteq> []" and "\<forall>v \<in> set vs. 0 \<le> v \<and> v \<le> 255"
  shows "average vs =
           Inr (round_half_even (fl (of_int (sum_list vs) / of_int (int (length vs)))))"
proof -
  have n: "0 < int (length vs)" using assms(1) by simp
  then have nr: "(0::real) < of_int (int (length vs))" by (simp only: of_int_0_less_iff)
  note s = sum_list_bounds[OF assms(2)]
  have "(of_int (sum_list vs) :: real) \<le> of_int (255 * int (length vs))"
    using s(2) by (simp only: of_int_le_iff)
  then have "(of_int (sum_list vs) :: real) / of_int (int (length vs)) \<le> 255"
    using nr by (simp add: divide_le_eq)
  moreover have "0 \<le> (of_int (sum_list vs) :: real) / of_int (int (length vs))"
    using s(1) nr by simp
  ultimately have "\<bar>(of_int (sum_list vs) :: real) / of_int (int (length vs))\<bar> \<le> 2 powi 8"
    by simp
  then have "rnd (of_int (sum_list vs) / of_int (int (length vs)))
          = Finite (fl (of_int (sum_list vs) / of_int (int (length vs))))"
    by (rule rnd_finite) simp_all
  then show ?thesis unfolding average_def truediv_def using n by simp
qed

subsection \<open>Averages\<close>

lemma sequence_map_ok:
  assumes "\<And>x. x \<in> set xs \<Longrightarrow> f x = Inr (g x)"
  shows "sequence (map f xs) = Inr (map g xs)"
  unfolding sequence_Inr_iff list_all2_conv_all_nth using assms by simp

lemma channel_sum:
  assumes "distinct ijs"
  shows "sum_list (map ch (map (\<lambda>(i, j). b ! nat i ! nat j) ijs)) = channel_total ch b (set ijs)"
proof -
  have "map ch (map (\<lambda>(i, j). b ! nat i ! nat j) ijs)
          = map (\<lambda>(i, j). ch (b ! nat i ! nat j)) ijs"
    by (simp add: case_prod_beta)
  then show ?thesis
    unfolding channel_total_def using assms by (simp only: sum_list_distinct_conv_sum_set)
qed

lemma average_channel:
  assumes "ps \<noteq> []" and "\<forall>p \<in> set ps. 0 \<le> ch p \<and> ch p \<le> 255"
  shows "average (map ch ps) =
           Inr (round_half_even (fl (of_int (sum_list (map ch ps)) / of_int (int (length ps)))))"
proof -
  have "map ch ps \<noteq> []" using assms(1) by simp
  moreover have "\<forall>v \<in> set (map ch ps). 0 \<le> v \<and> v \<le> 255" using assms(2) by auto
  ultimately have "average (map ch ps) =
      Inr (round_half_even (fl (of_int (sum_list (map ch ps))
                                / of_int (int (length (map ch ps))))))"
    by (rule average_ok)
  then show ?thesis by (simp only: length_map)
qed

lemma average_pixel_ok:
  assumes "ps \<noteq> []" and "\<forall>p \<in> set ps. valid_pixel p"
  shows "average_pixel ps =
     Inr (mk_RGB
       (round_half_even (fl (of_int (sum_list (map red ps)) / of_int (int (length ps)))))
       (round_half_even (fl (of_int (sum_list (map green ps)) / of_int (int (length ps)))))
       (round_half_even (fl (of_int (sum_list (map blue ps)) / of_int (int (length ps)))))
       (round_half_even (fl (of_int (sum_list (map alpha ps)) / of_int (int (length ps))))))"
proof -
  have r: "\<forall>p \<in> set ps. 0 \<le> red p \<and> red p \<le> 255"
    and g: "\<forall>p \<in> set ps. 0 \<le> green p \<and> green p \<le> 255"
    and b: "\<forall>p \<in> set ps. 0 \<le> blue p \<and> blue p \<le> 255"
    and a: "\<forall>p \<in> set ps. 0 \<le> alpha p \<and> alpha p \<le> 255"
    using assms(2) unfolding valid_pixel_def by auto
  show ?thesis
    unfolding average_pixel_def
    by (simp only: average_channel[OF assms(1) r] average_channel[OF assms(1) g]
        average_channel[OF assms(1) b] average_channel[OF assms(1) a] then_do_Inr)
qed

subsection \<open>One pixel, one row, the whole buffer\<close>

lemma blur_pixel_ok:
  assumes "valid_image b" and "0 \<le> radius" and "r < height b" and "c < width b"
  shows "blur_pixel b radius r c = Inr (box_pixel b radius r c)"
proof -
  define ijs where "ijs = cells (max 0 (int r - radius)) (min (int (height b) - 1) (int r + radius))
                                (max 0 (int c - radius)) (min (int (width b) - 1) (int c + radius))"
  define ps where "ps = map (\<lambda>(i, j). b ! nat i ! nat j) ijs"
  have v: "verify_image b" using assms(1) unfolding valid_image_def by simp
  have W: "set ijs = window b radius r c" unfolding ijs_def by (rule window_cells)
  have d: "distinct ijs" unfolding ijs_def by (rule distinct_cells)
  have inb: "\<forall>(i, j) \<in> set ijs. 0 \<le> i \<and> i < int (height b) \<and> 0 \<le> j \<and> j < int (width b)"
    unfolding W window_def by auto
  have rd: "read_cells b ijs = Inr ps" unfolding ps_def by (rule read_cells_ok[OF v inb])
  have "(int r, int c) \<in> set ijs" unfolding W by (rule window_self[OF assms(2,3,4)])
  then have "ijs \<noteq> []" by auto
  then have ne: "ps \<noteq> []" unfolding ps_def by simp
  have val: "\<forall>p \<in> set ps. valid_pixel p"
  proof
    fix p assume "p \<in> set ps"
    then obtain i j where ij: "(i, j) \<in> set ijs" and p: "p = b ! nat i ! nat j"
      unfolding ps_def by auto
    from ij inb have "nat i < height b" and "nat j < width b" by auto
    then show "valid_pixel p" unfolding p by (rule valid_image_nth[OF assms(1)])
  qed
  have len: "int (length ps) = int (card (window b radius r c))"
    unfolding ps_def W[symmetric] using d by (simp add: distinct_card)
  have s: "\<And>ch. sum_list (map ch ps) = channel_total ch b (window b radius r c)"
    unfolding ps_def W[symmetric] by (rule channel_sum[OF d])
  have "blur_pixel b radius r c = then_do (read_cells b ijs) average_pixel"
    unfolding blur_pixel_def ijs_def height_def width_def Let_def ..
  also have "\<dots> = average_pixel ps" unfolding rd by simp
  also have "\<dots> = Inr (box_pixel b radius r c)"
    unfolding average_pixel_ok[OF ne val] box_pixel_def window_average_def s len ..
  finally show ?thesis .
qed

lemma blur_row_ok:
  assumes "valid_image b" and "0 \<le> radius" and "r < height b"
  shows "blur_row b radius r (b ! r) = Inr (map (box_pixel b radius r) [0..<width b])"
proof -
  have v: "verify_image b" using assms(1) unfolding valid_image_def by simp
  have l: "length (b ! r) = width b"
    using assms(3) unfolding height_def by (rule verify_image_nth[OF v])
  have "sequence (map (\<lambda>c. then_do (blur_pixel b radius r c)
                 (\<lambda>p. if c < length (b ! r) then Inr p else Inl IndexError)) [0..<width b])
          = Inr (map (box_pixel b radius r) [0..<width b])"
  proof (rule sequence_map_ok)
    fix c assume "c \<in> set [0..<width b]"
    then have c: "c < width b" by simp
    show "then_do (blur_pixel b radius r c)
            (\<lambda>p. if c < length (b ! r) then Inr p else Inl IndexError)
          = Inr (box_pixel b radius r c)"
      unfolding blur_pixel_ok[OF assms(1,2,3) c] using c l by simp
  qed
  then show ?thesis unfolding blur_row_def width_def[symmetric] using l by simp
qed

lemma blur_valid:
  assumes "valid_image b" and "0 \<le> radius"
  shows "blur b radius = Inr (map (\<lambda>r. map (box_pixel b radius r) [0..<width b]) [0..<height b])"
proof -
  have v: "verify_image b" using assms(1) unfolding valid_image_def by simp
  then have ne: "b \<noteq> []" unfolding verify_image_iff by simp
  have "sequence (map (\<lambda>r. blur_row b radius r (b ! r)) [0..<height b])
          = Inr (map (\<lambda>r. map (box_pixel b radius r) [0..<width b]) [0..<height b])"
    by (rule sequence_map_ok) (simp add: blur_row_ok[OF assms])
  then show ?thesis unfolding blur_def height_def using ne by simp
qed

lemma blur_result_shape:
  assumes "verify_image b"
  shows "verify_image (map (\<lambda>r. map (f r) [0..<width b]) [0..<height b])"
    and "width (map (\<lambda>r. map (f r) [0..<width b]) [0..<height b]) = width b"
    and "height (map (\<lambda>r. map (f r) [0..<width b]) [0..<height b]) = height b"
proof -
  let ?b' = "map (\<lambda>r. map (f r) [0..<width b]) [0..<height b]"
  from assms have w: "0 < width b" and h: "0 < height b"
    by (simp_all add: verify_image_width_pos verify_image_height_pos)
  have ne': "?b' \<noteq> []" using h by simp
  have all': "\<forall>row \<in> set ?b'. length row = width b" by auto
  show "verify_image ?b'" by (rule verify_imageI(1)[OF ne' w all'])
  show "width ?b' = width b" by (rule verify_imageI(2)[OF ne' w all'])
  show "height ?b' = height b" unfolding height_def by simp
qed

lemma window_card:
  assumes "r < height b" and "c < width b" and "0 \<le> radius"
  shows "0 < card (window b radius r c)"
    and "int (card (window b radius r c)) \<le> int (height b) * int (width b)"
proof -
  have "window b radius r c \<noteq> {}" using window_self[OF assms(3,1,2)] by auto
  then show "0 < card (window b radius r c)" using finite_window by (simp add: card_gt_0_iff)
  have "window b radius r c \<subseteq> {0..int (height b) - 1} \<times> {0..int (width b) - 1}"
    unfolding window_def by auto
  then have "card (window b radius r c) \<le> card ({0..int (height b) - 1} \<times> {0..int (width b) - 1})"
    by (intro card_mono) simp_all
  also have "\<dots> = height b * width b" by (simp add: card_cartesian_product)
  finally show "int (card (window b radius r c)) \<le> int (height b) * int (width b)"
    by (metis of_nat_le_iff of_nat_mult)
qed

lemma total_bounds:
  assumes "valid_image b" and "ch \<in> {red, green, blue, alpha}"
  shows "0 \<le> channel_total ch b (window b radius r c)"
    and "channel_total ch b (window b radius r c) \<le> 255 * int (card (window b radius r c))"
proof -
  have e: "\<And>i j. (i, j) \<in> window b radius r c \<Longrightarrow>
             0 \<le> ch (b ! nat i ! nat j) \<and> ch (b ! nat i ! nat j) \<le> 255"
  proof -
    fix i j assume "(i, j) \<in> window b radius r c"
    then have "nat i < height b" and "nat j < width b" unfolding window_def by auto
    then have "valid_pixel (b ! nat i ! nat j)" by (rule valid_image_nth[OF assms(1)])
    then show "0 \<le> ch (b ! nat i ! nat j) \<and> ch (b ! nat i ! nat j) \<le> 255"
      using assms(2) unfolding valid_pixel_def by auto
  qed
  show "0 \<le> channel_total ch b (window b radius r c)"
    unfolding channel_total_def by (rule sum_nonneg) (use e in auto)
  have "channel_total ch b (window b radius r c) \<le> (\<Sum>ij\<in>window b radius r c. 255)"
    unfolding channel_total_def by (rule sum_mono) (use e in auto)
  then show "channel_total ch b (window b radius r c) \<le> 255 * int (card (window b radius r c))"
    by simp
qed

lemma window_average_exact:
  assumes "valid_image b" and "ch \<in> {red, green, blue, alpha}"
    and "r < height b" and "c < width b" and "0 \<le> radius"
    and "255 * int (card (window b radius r c)) < 2 ^ 52"
  shows "window_average ch b (window b radius r c)
       = round_half_even (of_int (channel_total ch b (window b radius r c))
                          / of_int (int (card (window b radius r c))))"
proof -
  note t = total_bounds[OF assms(1,2), of radius r c]
  have n: "0 < int (card (window b radius r c))" using window_card(1)[OF assms(3,4,5)] by simp
  have "int (card (window b radius r c)) < 2 ^ 52" using assms(6) by simp
  also have "(2::int) ^ 52 < 2 ^ 1000" by simp
  finally have n2: "int (card (window b radius r c)) < 2 ^ 1000" .
  have "channel_total ch b (window b radius r c) < 2 ^ 52" using t(2) assms(6) by simp
  then show ?thesis
    unfolding window_average_def by (rule round_fl_quotient[OF t(1) n _ n2])
qed

subsection \<open>The box blur\<close>

text \<open>
  Claim C5. On a non-empty rectangular buffer with channels in \<open>0..255\<close> and for a radius
  \<open>radius > 0\<close>, \<^verbatim>\<open>blur\<close> returns a buffer of the same height and width whose pixel at
  \<open>(r, c)\<close> holds, for each of the four channels independently, the rounded average of that
  channel over \<open>window b radius r c\<close>: the positions of the buffer at most \<open>radius\<close> rows and
  \<open>radius\<close> columns away from \<open>(r, c)\<close>, that is the square of side \<open>2 * radius + 1\<close> clamped to
  the edges. Every total is taken over the buffer \<open>b\<close> as it was passed in, never over values
  that \<^verbatim>\<open>blur\<close> has already written. The average is \<^verbatim>\<open>round(total / count)\<close> on doubles; as
  long as \<open>255 * count\<close> stays below \<open>2 ^ 52\<close> it is the exact quotient rounded to the nearest
  integer, ties to even.
\<close>

theorem blur_spec:
  assumes "valid_image b" and "0 < radius"
  shows "\<exists>b'. blur b radius = Inr b' \<and> verify_image b'
          \<and> height b' = height b \<and> width b' = width b
          \<and> (\<forall>r c. r < height b \<longrightarrow> c < width b \<longrightarrow>
                b' ! r ! c = mk_RGB (window_average red b (window b radius r c))
                                   (window_average green b (window b radius r c))
                                   (window_average blue b (window b radius r c))
                                   (window_average alpha b (window b radius r c))
                \<and> (255 * int (card (window b radius r c)) < 2 ^ 52 \<longrightarrow>
                     (\<forall>ch \<in> {red, green, blue, alpha}.
                        window_average ch b (window b radius r c)
                        = round_half_even (of_int (channel_total ch b (window b radius r c))
                                           / of_int (int (card (window b radius r c)))))))"
proof -
  define b' where "b' = map (\<lambda>r. map (box_pixel b radius r) [0..<width b]) [0..<height b]"
  have v: "verify_image b" using assms(1) unfolding valid_image_def by simp
  have rad: "0 \<le> radius" using assms(2) by simp
  have res: "blur b radius = Inr b'" unfolding b'_def by (rule blur_valid[OF assms(1) rad])
  have s1: "verify_image b'" unfolding b'_def by (rule blur_result_shape(1)[OF v])
  have s2: "height b' = height b" unfolding b'_def by (rule blur_result_shape(3)[OF v])
  have s3: "width b' = width b" unfolding b'_def by (rule blur_result_shape(2)[OF v])
  have px: "\<forall>r c. r < height b \<longrightarrow> c < width b \<longrightarrow>
                b' ! r ! c = mk_RGB (window_average red b (window b radius r c))
                                   (window_average green b (window b radius r c))
                                   (window_average blue b (window b radius r c))
                                   (window_average alpha b (window b radius r c))
                \<and> (255 * int (card (window b radius r c)) < 2 ^ 52 \<longrightarrow>
                     (\<forall>ch \<in> {red, green, blue, alpha}.
                        window_average ch b (window b radius r c)
                        = round_half_even (of_int (channel_total ch b (window b radius r c))
                                           / of_int (int (card (window b radius r c))))))"
  proof (intro allI impI conjI ballI)
    fix r c assume r: "r < height b" and c: "c < width b"
    show "b' ! r ! c = mk_RGB (window_average red b (window b radius r c))
                             (window_average green b (window b radius r c))
                             (window_average blue b (window b radius r c))
                             (window_average alpha b (window b radius r c))"
      unfolding b'_def box_pixel_def[symmetric] using r c by simp
    fix ch :: "RGB \<Rightarrow> int"
    assume "255 * int (card (window b radius r c)) < 2 ^ 52"
      and "ch \<in> {red, green, blue, alpha}"
    then show "window_average ch b (window b radius r c)
                 = round_half_even (of_int (channel_total ch b (window b radius r c))
                                    / of_int (int (card (window b radius r c))))"
      using window_average_exact[OF assms(1) _ r c rad] by blast
  qed
  from res s1 s2 s3 px show ?thesis by (intro exI[of _ b'] conjI)
qed

text \<open>A row of two pixels, blurred with radius 1: both averages are ties.\<close>

lemma window_row_of_two:
  assumes "c < 2"
  shows "window [[p, q]] 1 0 c = {(0, 0), (0, 1)}"
proof -
  have "{0..(0::int)} \<times> {0..(1::int)} = {(0, 0), (0, 1)}" by auto
  moreover have "max 0 (int c - 1) = 0" and "min 1 (int c + 1) = 1" using assms by auto
  ultimately show ?thesis unfolding window_product height_def width_def by simp
qed

lemma total_row_of_two:
  "channel_total ch [[p, q]] {(0, 0), (0, 1)} = ch p + ch q"
  unfolding channel_total_def by simp

lemma round_half_even_half:
  "round_half_even (of_int n / 2) = (if even n then n div 2 else if even (n div 2) then n div 2 else n div 2 + 1)"
proof (cases "even n")
  case True
  then obtain k where k: "n = 2 * k" by (auto elim: evenE)
  have "round_half_even (of_int n / 2) = round_half_even (of_int k)" unfolding k by simp
  then show ?thesis using True k by (simp add: round_half_even_of_int)
next
  case False
  then obtain k where k: "n = 2 * k + 1" by (auto elim: oddE)
  have e: "(of_int n :: real) / 2 = of_int k + 1 / 2" unfolding k by simp
  have f: "\<lfloor>(of_int k :: real) + 1 / 2\<rfloor> = k" by linarith
  show ?thesis using False unfolding e round_half_even_def Let_def f by (simp add: k)
qed

theorem blur_spec_witness:
  "valid_image [[mk_RGB 10 20 30 255, mk_RGB 21 41 50 255]] \<and> (0::int) < 1
   \<and> blur [[mk_RGB 10 20 30 255, mk_RGB 21 41 50 255]] 1
       = Inr [[mk_RGB 16 30 40 255, mk_RGB 16 30 40 255]]"
proof -
  let ?b = "[[mk_RGB 10 20 30 255, mk_RGB 21 41 50 255]]"
  have h1: "valid_image ?b"
    by (simp add: valid_image_def verify_image_def height_def width_def valid_pixel_def
        mk_RGB_def)
  have h2: "(0::int) < 1" by simp
  from blur_spec[OF h1 h2] obtain b' where res: "blur ?b 1 = Inr b'"
    and v: "verify_image b'" and h: "height b' = height ?b" and w: "width b' = width ?b"
    and px: "\<And>r c. r < height ?b \<Longrightarrow> c < width ?b \<Longrightarrow>
        b' ! r ! c = mk_RGB (window_average red ?b (window ?b 1 r c))
                           (window_average green ?b (window ?b 1 r c))
                           (window_average blue ?b (window ?b 1 r c))
                           (window_average alpha ?b (window ?b 1 r c))
        \<and> (255 * int (card (window ?b 1 r c)) < 2 ^ 52 \<longrightarrow>
             (\<forall>ch \<in> {red, green, blue, alpha}.
                window_average ch ?b (window ?b 1 r c)
                = round_half_even (of_int (channel_total ch ?b (window ?b 1 r c))
                                   / of_int (int (card (window ?b 1 r c))))))"
    by blast
  have hb: "height ?b = 1" and wb: "width ?b = 2" by (simp_all add: height_def width_def)
  have e: "b' ! 0 ! c = mk_RGB 16 30 40 255" if c: "c < 2" for c
  proof -
    have W: "window ?b 1 0 c = {(0, 0), (0, 1)}" by (rule window_row_of_two[OF c])
    have cd: "card {(0::int, 0::int), (0, 1)} = 2" by simp
    have "0 < height ?b" and "c < width ?b" using c by (simp_all add: hb wb)
    note p = px[OF this, unfolded W cd]
    have r1: "round_half_even (31 / 2) = 16" using round_half_even_half[of 31] by simp
    have r2: "round_half_even (61 / 2) = 30" using round_half_even_half[of 61] by simp
    have r3: "round_half_even 40 = 40" using round_half_even_of_int[of 40] by simp
    have r4: "round_half_even 255 = 255" using round_half_even_of_int[of 255] by simp
    have "window_average red ?b {(0, 0), (0, 1)} = 16"
      using p by (simp add: total_row_of_two r1 r2 r3 r4 mk_RGB_def)
    moreover have "window_average green ?b {(0, 0), (0, 1)} = 30"
      using p by (simp add: total_row_of_two r1 r2 r3 r4 mk_RGB_def)
    moreover have "window_average blue ?b {(0, 0), (0, 1)} = 40"
      using p by (simp add: total_row_of_two r1 r2 r3 r4 mk_RGB_def)
    moreover have "window_average alpha ?b {(0, 0), (0, 1)} = 255"
      using p by (simp add: total_row_of_two r1 r2 r3 r4 mk_RGB_def)
    ultimately show ?thesis using p by simp
  qed
  have l: "length b' = 1" using h hb unfolding height_def by simp
  have l0: "length (b' ! 0) = 2" using verify_image_nth[OF v, of 0] l w wb by simp
  have "b' ! 0 = [mk_RGB 16 30 40 255, mk_RGB 16 30 40 255]"
    by (rule nth_equalityI) (use l0 e in \<open>auto dest!: less_2_cases\<close>)
  then have "b' = [[mk_RGB 16 30 40 255, mk_RGB 16 30 40 255]]"
    using l by (cases b') auto
  with res h1 h2 show ?thesis by simp
qed

section \<open>Shape preservation\<close>

subsection \<open>Row lengths\<close>

lemma lengths_shape:
  assumes "map length b' = map length b" and "verify_image b"
  shows "same_shape b b'"
proof -
  have len: "length b' = length b" using assms(1) by (rule map_eq_imp_length_eq)
  have "list_all2 (\<lambda>row row'. length row' = length row) b b'"
    unfolding list_all2_conv_all_nth
  proof (intro conjI allI impI)
    show "length b = length b'" using len by simp
    fix i assume i: "i < length b"
    then have "map length b' ! i = map length b ! i" using assms(1) by simp
    then show "length (b' ! i) = length (b ! i)" using i len by simp
  qed
  then show ?thesis unfolding same_shape_def
    using same_lengths_shape[of b b'] assms(2) by blast
qed

lemma same_shape_lengths:
  assumes "same_shape b b'" and "verify_image b"
  shows "map length b' = map length b"
proof (rule nth_equalityI)
  have h: "length b' = length b" using assms(1) unfolding same_shape_def height_def by simp
  then show "length (map length b') = length (map length b)" by simp
  fix i assume "i < length (map length b')"
  then have i: "i < length b'" by simp
  have v: "verify_image b'" and w: "width b' = width b"
    using assms(1) unfolding same_shape_def by simp_all
  have "length (b' ! i) = width b'" by (rule verify_image_nth[OF v i])
  moreover have "length (b ! i) = width b" using i h by (intro verify_image_nth[OF assms(2)]) simp
  ultimately show "map length b' ! i = map length b ! i" using i h w by simp
qed

lemma dered_shape: "verify_image b \<Longrightarrow> same_shape b (dered b)"
  by (rule lengths_shape) (simp_all add: dered_def)

lemma flip_same_shape: "verify_image b \<Longrightarrow> same_shape b (flip b v)"
  unfolding same_shape_def using flip_shape[of b v] by simp

lemma transpose_swapped:
  assumes "verify_image b"
  shows "\<exists>b'. transpose_image b = Inr b' \<and> swapped_shape b b'"
  unfolding swapped_shape_def
  using transpose_image_transposed[OF assms] transposed_shape[OF assms] transposed_height[of b]
  by simp

lemma rotate_swapped:
  assumes "verify_image b"
  shows "\<exists>b'. rotate_image b v = Inr b' \<and> swapped_shape b b'"
proof -
  obtain b' where r: "rotate_image b v = Inr b'" using rotate_defined[OF assms] by blast
  show ?thesis unfolding swapped_shape_def
    using r rotate_shape[OF assms r] by simp
qed

subsection \<open>Mono and brighten\<close>

lemma fmul_lit_finite:
  assumes "\<bar>x\<bar> \<le> 1" and "\<bar>s\<bar> \<le> 2 powi 8"
  shows "\<exists>y. fmul (lit x) (Finite s) = Finite y"
proof -
  have "\<bar>fl x\<bar> \<le> 2 powi 0" by (rule fl_abs_le) (use assms(1) in simp_all)
  then have "\<bar>fl x\<bar> \<le> 1" by simp
  then have "\<bar>fl x\<bar> * \<bar>s\<bar> \<le> 1 * 2 powi 8" using assms(2) by (intro mult_mono) simp_all
  then have "\<bar>fl x * s\<bar> \<le> 2 powi 8" by (simp add: abs_mult)
  then have "rnd (fl x * s) = Finite (fl (fl x * s))" by (rule rnd_finite) simp_all
  then show ?thesis unfolding lit_def by simp
qed

lemma mono_pixel_total:
  assumes "valid_pixel p"
  shows "\<exists>q. mono_pixel sepia p = Inr q"
proof -
  from assms have c: "0 \<le> red p" "red p \<le> 255" "0 \<le> green p" "green p \<le> 255"
    "0 \<le> blue p" "blue p \<le> 255"
    unfolding valid_pixel_def by simp_all
  obtain s where b: "brightness p = Inr (Finite s)" and s0: "0 \<le> s"
    and e: "\<bar>s - (3 * of_int (red p) + 6 * of_int (green p) + of_int (blue p)) / 10\<bar>
              \<le> 2 powi (- 42)"
    using brightness_valid[OF c] by blast
  have "(3 * of_int (red p) + 6 * of_int (green p) + of_int (blue p)) / 10 \<le> (255::real)"
    using c by simp
  moreover have "(2::real) powi (- 42) \<le> 1" by (simp add: power_int_minus field_simps)
  ultimately have "s \<le> 256" using e unfolding abs_le_iff by linarith
  then have s8: "\<bar>s\<bar> \<le> 2 powi 8" using s0 by simp
  obtain y1 where h1: "fmul (lit (3 / 5)) (Finite s) = Finite y1"
    using fmul_lit_finite[of "3 / 5" s] s8 by auto
  obtain y2 where h2: "fmul (lit (2 / 5)) (Finite s) = Finite y2"
    using fmul_lit_finite[of "2 / 5" s] s8 by auto
  show ?thesis by (cases sepia) (simp_all add: mono_pixel_def b h1 h2)
qed

lemma mono_same_shape:
  assumes "valid_image b"
  shows "\<exists>b'. mono_image b sepia = Inr b' \<and> same_shape b b'"
proof -
  have v: "verify_image b" using assms unfolding valid_image_def by simp
  have "\<forall>row \<in> set b. \<forall>p \<in> set row. \<exists>q. mono_pixel sepia p = Inr q"
    using assms unfolding valid_image_def list_all_iff by (auto intro: mono_pixel_total)
  then obtain b' where r: "mono_image b sepia = Inr b'"
    unfolding mono_image_def using for_each_pixel_total by blast
  show ?thesis unfolding same_shape_def
    using r for_each_pixel_shape[OF r[unfolded mono_image_def] v] by simp
qed

lemma brighten_channel_total:
  assumes "0 \<le> v" and "v \<le> 255" and "\<bar>f\<bar> \<le> 2 ^ 1000"
  shows "\<exists>n. brighten_channel (Finite f) v = Inr n"
proof -
  have fi: "float_of_int v = Inr (Finite (of_int v))"
    by (rule float_of_int_small) (use assms(1,2) in simp)
  have "\<bar>of_int v :: real\<bar> \<le> 2 ^ 8" using assms(1,2) by simp
  then have "\<bar>of_int v :: real\<bar> * \<bar>f\<bar> \<le> 2 ^ 8 * 2 ^ 1000"
    using assms(3) by (intro mult_mono) simp_all
  then have "\<bar>of_int v * f\<bar> \<le> 2 powi 1008" by (simp add: abs_mult)
  then have "rnd (of_int v * f) = Finite (fl (of_int v * f))" by (rule rnd_finite) simp_all
  then show ?thesis unfolding brighten_channel_def fi by simp
qed

lemma brighten_pixel_total:
  assumes "valid_pixel p" and "\<bar>f\<bar> \<le> 2 ^ 1000"
  shows "\<exists>q. brighten_pixel (Finite f) p = Inr q"
proof -
  from assms(1) have c: "0 \<le> red p" "red p \<le> 255" "0 \<le> green p" "green p \<le> 255"
    "0 \<le> blue p" "blue p \<le> 255"
    unfolding valid_pixel_def by simp_all
  obtain r where r: "brighten_channel (Finite f) (red p) = Inr r"
    using brighten_channel_total[OF c(1,2) assms(2)] by blast
  obtain g where g: "brighten_channel (Finite f) (green p) = Inr g"
    using brighten_channel_total[OF c(3,4) assms(2)] by blast
  obtain bl where bl: "brighten_channel (Finite f) (blue p) = Inr bl"
    using brighten_channel_total[OF c(5,6) assms(2)] by blast
  show ?thesis unfolding brighten_pixel_def r g bl by simp
qed

lemma brighten_shape:
  assumes "brighten b factor = Inr b'" and "verify_image b"
  shows "same_shape b b'"
  unfolding same_shape_def
  using for_each_pixel_shape[OF assms(1)[unfolded brighten_def] assms(2)] by simp

lemma brighten_total:
  assumes "valid_image b" and "\<bar>f\<bar> \<le> 2 ^ 1000"
  shows "\<exists>b'. brighten b (Finite f) = Inr b'"
proof -
  have "\<forall>row \<in> set b. \<forall>p \<in> set row. \<exists>q. brighten_pixel (Finite f) p = Inr q"
    using assms unfolding valid_image_def list_all_iff by (auto intro: brighten_pixel_total)
  then show ?thesis unfolding brighten_def by (rule for_each_pixel_total)
qed

subsection \<open>Vignette and blur\<close>

lemma vignette_same_shape:
  assumes "vignette pow2 b = Inr b'" and "verify_image b"
  shows "same_shape b b'"
  unfolding same_shape_def using vignette_shape[OF assms] by simp

lemma vignette_total:
  assumes "valid_image b" and "\<not> (height b = 1 \<and> width b = 1)"
    and "\<forall>x. 0 \<le> x \<and> x \<le> 1 \<longrightarrow> 0 \<le> pow2 x \<and> pow2 x \<le> 1"
  shows "\<exists>b'. vignette pow2 b = Inr b'"
  using vignette_valid[OF assms] by blast

lemma blur_row_length:
  assumes "blur_row original radius r row = Inr row'"
    and "length (hd original) \<le> length row"
  shows "length row' = length row"
proof -
  from assms(1) obtain ps where
    ps: "sequence (map (\<lambda>c. then_do (blur_pixel original radius r c)
               (\<lambda>p. if c < length row then Inr p else Inl IndexError))
               [0..<length (hd original)]) = Inr ps"
    and r: "row' = ps @ drop (length (hd original)) row"
    unfolding blur_row_def then_do_Inr_iff by auto
  have "length ps = length (hd original)" using ps by (rule sequence_upt(1))
  then show ?thesis unfolding r using assms(2) by simp
qed

lemma blur_shape:
  assumes "blur b radius = Inr b'" and "verify_image b"
  shows "same_shape b b'"
proof -
  have ne: "b \<noteq> []" using assms(2) unfolding verify_image_iff by simp
  have s: "sequence (map (\<lambda>r. blur_row b radius r (b ! r)) [0..<length b]) = Inr b'"
    using assms(1) ne unfolding blur_def by simp
  have l: "\<And>r row'. r < length b \<Longrightarrow> blur_row b radius r (b ! r) = Inr row'
             \<Longrightarrow> length row' = length (b ! r)"
  proof -
    fix r row' assume r: "r < length b" and e: "blur_row b radius r (b ! r) = Inr row'"
    have "length (b ! r) = width b" using assms(2) r by (rule verify_image_nth)
    then have "length (hd b) \<le> length (b ! r)" unfolding width_def by simp
    with e show "length row' = length (b ! r)" by (rule blur_row_length)
  qed
  show ?thesis unfolding same_shape_def
    using rows_shape[of "\<lambda>r. blur_row b radius r (b ! r)" b b', OF s l assms(2)] by simp
qed

lemma blur_total:
  assumes "valid_image b" and "0 \<le> radius"
  shows "\<exists>b'. blur b radius = Inr b'"
  using blur_valid[OF assms] by blast

subsection \<open>Scramble\<close>

lemma randint_range:
  assumes "0 \<le> b"
  shows "\<exists>x. randint draws k 0 b = Inr x \<and> 0 \<le> x \<and> x \<le> b"
proof -
  have "0 \<le> int (draws k) mod (b + 1)" using assms by simp
  moreover have "int (draws k) mod (b + 1) \<le> b"
    using pos_mod_bound[of "b + 1" "int (draws k)"] assms by linarith
  ultimately show ?thesis unfolding randint_def using assms by simp
qed

lemma randint_nonneg:
  assumes "randint draws k 0 b = Inr x"
  shows "0 \<le> x" and "x \<le> b"
proof -
  have b: "0 \<le> b" using assms unfolding randint_def by (simp split: if_splits)
  then obtain y where "randint draws k 0 b = Inr y" and "0 \<le> y" and "y \<le> b"
    using randint_range[of b draws k] by blast
  with assms show "0 \<le> x" and "x \<le> b" by simp_all
qed

lemma py_index_Inr:
  assumes "py_index xs i = Inr x" and "0 \<le> i"
  shows "nat i < length xs" and "x = xs ! nat i"
  using assms unfolding py_index_def Let_def by (simp_all split: if_splits)

lemma scramble_step_lengths:
  assumes "scramble_step draws ht wd k img = Inr img'"
  shows "map length img' = map length img"
proof -
  from assms obtain r c row pixel rd gr bl where
    r: "randint draws (5 * k) 0 (ht - 1) = Inr r"
    and c: "randint draws (5 * k + 1) 0 (wd - 1) = Inr c"
    and row: "py_index img r = Inr row"
    and pixel: "py_index row c = Inr pixel"
    and res: "img' = img[nat r := row[nat c := mk_RGB rd gr bl (alpha pixel)]]"
    unfolding scramble_step_def then_do_Inr_iff by auto
  have r0: "0 \<le> r" using r by (rule randint_nonneg(1))
  have rw: "row = img ! nat r" using row r0 by (rule py_index_Inr(2))
  have rl: "nat r < length img" using row r0 by (rule py_index_Inr(1))
  show ?thesis unfolding res rw using rl
    by (simp add: map_update list_eq_iff_nth_eq nth_list_update)
qed

lemma scramble_step_total:
  assumes "verify_image img"
  shows "\<exists>img'. scramble_step draws (int (height img)) (int (width img)) k img = Inr img'"
proof -
  have h: "0 < height img" and w: "0 < width img"
    using assms by (simp_all add: verify_image_height_pos verify_image_width_pos)
  obtain r where r: "randint draws (5 * k) 0 (int (height img) - 1) = Inr r"
    and r0: "0 \<le> r" and r1: "r \<le> int (height img) - 1"
    using randint_range[of "int (height img) - 1" draws "5 * k"] h by auto
  obtain c where c: "randint draws (5 * k + 1) 0 (int (width img) - 1) = Inr c"
    and c0: "0 \<le> c" and c1: "c \<le> int (width img) - 1"
    using randint_range[of "int (width img) - 1" draws "5 * k + 1"] w by auto
  obtain rd where rd: "randint draws (5 * k + 2) 0 255 = Inr rd"
    using randint_range[of 255 draws "5 * k + 2"] by auto
  obtain gr where gr: "randint draws (5 * k + 3) 0 255 = Inr gr"
    using randint_range[of 255 draws "5 * k + 3"] by auto
  obtain bl where bl: "randint draws (5 * k + 4) 0 255 = Inr bl"
    using randint_range[of 255 draws "5 * k + 4"] by auto
  have rl: "nat r < length img" using r0 r1 unfolding height_def by simp
  have row: "py_index img r = Inr (img ! nat r)" using py_index_nat[OF rl] r0 by simp
  have cl: "nat c < length (img ! nat r)"
    using verify_image_nth[OF assms rl] c0 c1 by simp
  have pixel: "py_index (img ! nat r) c = Inr (img ! nat r ! nat c)"
    using py_index_nat[OF cl] c0 by simp
  have "scramble_step draws (int (height img)) (int (width img)) k img
          = Inr (img[nat r := (img ! nat r)[nat c := mk_RGB rd gr bl (alpha (img ! nat r ! nat c))]])"
    by (simp only: scramble_step_def r c row pixel rd gr bl then_do_Inr)
  then show ?thesis by blast
qed

lemma scramble_loop_ok:
  assumes "verify_image img" and "ht = int (height img)" and "wd = int (width img)"
  shows "\<exists>img'. scramble_loop draws ht wd ks img = Inr img' \<and> same_shape img img'"
  using assms
proof (induction ks arbitrary: img)
  case Nil
  then show ?case unfolding same_shape_def by simp
next
  case (Cons k ks)
  obtain img1 where s: "scramble_step draws ht wd k img = Inr img1"
    using scramble_step_total[OF Cons.prems(1)] Cons.prems(2,3) by auto
  have sh: "same_shape img img1"
    using scramble_step_lengths[OF s] Cons.prems(1) by (rule lengths_shape)
  then have v1: "verify_image img1" and h1: "ht = int (height img1)"
    and w1: "wd = int (width img1)"
    using Cons.prems(2,3) unfolding same_shape_def by simp_all
  obtain img' where l: "scramble_loop draws ht wd ks img1 = Inr img'"
    and sh': "same_shape img1 img'"
    using Cons.IH[OF v1 h1 w1] by blast
  have "same_shape img img'" using sh sh' unfolding same_shape_def by simp
  then show ?case using s l by simp
qed

lemma scramble_ok:
  assumes "verify_image b"
  shows "\<exists>b'. scramble draws b amount = Inr b' \<and> same_shape b b'"
proof -
  have ne: "b \<noteq> []" using assms unfolding verify_image_iff by simp
  have "scramble draws b amount
          = scramble_loop draws (int (height b)) (int (width b)) [0..<nat amount] b"
    unfolding scramble_def py_index_hd[OF ne] height_def width_def by simp
  then show ?thesis using scramble_loop_ok[OF assms refl refl] by simp
qed

subsection \<open>Pixellate\<close>

lemma fill_block_lengths:
  "map length (fill_block img row row_max col col_max p) = map length img"
proof (rule nth_equalityI)
  show "length (map length (fill_block img row row_max col col_max p)) = length (map length img)"
    by (simp add: fill_block_def)
  fix i assume "i < length (map length (fill_block img row row_max col col_max p))"
  then have "i < length img" by (simp add: fill_block_def)
  then show "map length (fill_block img row row_max col col_max p) ! i = map length img ! i"
    by (simp add: fill_block_def)
qed

lemma fill_block_nth:
  assumes "r < length img" and "c < length (img ! r)"
  shows "fill_block img row row_max col col_max p ! r ! c
           = (if row \<le> r \<and> r < row_max \<and> col \<le> c \<and> c < col_max then p else img ! r ! c)"
  using assms by (simp add: fill_block_def)

lemma pixellate_block_lengths:
  assumes "pixellate_block ht wd step rc img = Inr img'"
  shows "map length img' = map length img"
proof -
  obtain row col where rc: "rc = (row, col)" by (cases rc)
  from assms obtain p where
    "img' = fill_block img row (min (row + step) ht) col (min (col + step) wd) p"
    by (auto simp: pixellate_block_def rc Let_def then_do_Inr_iff)
  then show ?thesis by (simp only: fill_block_lengths)
qed

lemma pixellate_loop_lengths:
  assumes "pixellate_loop ht wd step rcs img = Inr img'"
  shows "map length img' = map length img"
  using assms
proof (induction rcs arbitrary: img)
  case Nil
  then show ?case by simp
next
  case (Cons rc rcs)
  from Cons.prems obtain img1 where s: "pixellate_block ht wd step rc img = Inr img1"
    and l: "pixellate_loop ht wd step rcs img1 = Inr img'"
    by (auto simp: then_do_Inr_iff)
  show ?case using Cons.IH[OF l] pixellate_block_lengths[OF s] by simp
qed

lemma pixellate_shape:
  assumes "pixellate b step = Inr b'" and "verify_image b"
  shows "same_shape b b'"
proof -
  have ne: "b \<noteq> []" using assms(2) unfolding verify_image_iff by simp
  have "map length b' = map length b"
  proof (cases "step < 0")
    case True
    then have "b' = b" using assms(1) unfolding pixellate_def py_index_hd[OF ne] by simp
    then show ?thesis by simp
  next
    case False
    then obtain rcs where "pixellate_loop (length b) (length (hd b)) (nat step) rcs b = Inr b'"
      using assms(1) unfolding pixellate_def py_index_hd[OF ne]
      by (simp add: Let_def split: if_splits)
    then show ?thesis by (rule pixellate_loop_lengths)
  qed
  then show ?thesis using assms(2) by (rule lengths_shape)
qed

lemma average_range:
  assumes "vs \<noteq> []" and "\<forall>v \<in> set vs. 0 \<le> v \<and> v \<le> (255::int)"
  shows "0 \<le> round_half_even (fl (of_int (sum_list vs) / of_int (int (length vs))))"
    and "round_half_even (fl (of_int (sum_list vs) / of_int (int (length vs)))) \<le> 255"
proof -
  define q :: real where "q = of_int (sum_list vs) / of_int (int (length vs))"
  have n: "0 < int (length vs)" using assms(1) by simp
  then have nr: "(0::real) < of_int (int (length vs))" by (simp only: of_int_0_less_iff)
  note s = sum_list_bounds[OF assms(2)]
  have "(of_int (sum_list vs) :: real) \<le> of_int (255 * int (length vs))"
    using s(2) by (simp only: of_int_le_iff)
  then have q1: "q \<le> of_int 255" unfolding q_def using nr by (simp add: divide_le_eq)
  have q0: "of_int 0 \<le> q" unfolding q_def using s(1) nr by simp
  have f0: "fl (of_int 0) = of_int 0" by (rule fl_of_int) simp
  have f1: "fl (of_int 255) = of_int 255" by (rule fl_of_int) simp
  have "round_half_even (fl (of_int 0)) \<le> round_half_even (fl q)"
    by (intro round_half_even_mono fl_mono q0)
  then show "0 \<le> round_half_even (fl (of_int (sum_list vs) / of_int (int (length vs))))"
    unfolding f0 q_def by (simp only: round_half_even_of_int)
  have "round_half_even (fl q) \<le> round_half_even (fl (of_int 255))"
    by (intro round_half_even_mono fl_mono q1)
  then show "round_half_even (fl (of_int (sum_list vs) / of_int (int (length vs)))) \<le> 255"
    unfolding f1 q_def by (simp only: round_half_even_of_int)
qed

lemma channel_range:
  assumes "ps \<noteq> []" and "\<forall>p \<in> set ps. 0 \<le> ch p \<and> ch p \<le> (255::int)"
  shows "0 \<le> round_half_even (fl (of_int (sum_list (map ch ps)) / of_int (int (length ps))))"
    and "round_half_even (fl (of_int (sum_list (map ch ps)) / of_int (int (length ps)))) \<le> 255"
proof -
  have ne: "map ch ps \<noteq> []" using assms(1) by simp
  have r: "\<forall>v \<in> set (map ch ps). 0 \<le> v \<and> v \<le> 255" using assms(2) by auto
  show "0 \<le> round_half_even (fl (of_int (sum_list (map ch ps)) / of_int (int (length ps))))"
    using average_range(1)[OF ne r] by (simp only: length_map)
  show "round_half_even (fl (of_int (sum_list (map ch ps)) / of_int (int (length ps)))) \<le> 255"
    using average_range(2)[OF ne r] by (simp only: length_map)
qed

lemma average_pixel_valid:
  assumes "ps \<noteq> []" and "\<forall>p \<in> set ps. valid_pixel p"
  shows "\<exists>p. average_pixel ps = Inr p \<and> valid_pixel p"
proof -
  have r: "\<forall>p \<in> set ps. 0 \<le> red p \<and> red p \<le> 255"
    and g: "\<forall>p \<in> set ps. 0 \<le> green p \<and> green p \<le> 255"
    and b: "\<forall>p \<in> set ps. 0 \<le> blue p \<and> blue p \<le> 255"
    and a: "\<forall>p \<in> set ps. 0 \<le> alpha p \<and> alpha p \<le> 255"
    using assms(2) unfolding valid_pixel_def by auto
  show ?thesis
    unfolding average_pixel_ok[OF assms] valid_pixel_def mk_RGB_def
    using channel_range[OF assms(1) r] channel_range[OF assms(1) g]
      channel_range[OF assms(1) b] channel_range[OF assms(1) a]
    by simp
qed

lemma pixellate_block_valid:
  assumes "valid_image img" and "row < height img" and "col < width img" and "0 < step"
  shows "\<exists>img'. pixellate_block (height img) (width img) step (row, col) img = Inr img'
           \<and> valid_image img' \<and> height img' = height img \<and> width img' = width img"
proof -
  define row_max where "row_max = min (row + step) (height img)"
  define col_max where "col_max = min (col + step) (width img)"
  define ijs where "ijs = cells (int row) (int row_max - 1) (int col) (int col_max - 1)"
  define ps where "ps = map (\<lambda>(i, j). img ! nat i ! nat j) ijs"
  have v: "verify_image img" using assms(1) unfolding valid_image_def by simp
  have rm: "row < row_max" "row_max \<le> height img"
    unfolding row_max_def using assms(2,4) by simp_all
  have cm: "col < col_max" "col_max \<le> width img"
    unfolding col_max_def using assms(3,4) by simp_all
  have S: "set ijs = {int row..int row_max - 1} \<times> {int col..int col_max - 1}"
    unfolding ijs_def by (rule set_cells)
  have inb: "\<forall>(i, j) \<in> set ijs. 0 \<le> i \<and> i < int (height img) \<and> 0 \<le> j \<and> j < int (width img)"
    unfolding S using rm cm by auto
  have rd: "read_cells img ijs = Inr ps" unfolding ps_def by (rule read_cells_ok[OF v inb])
  have "(int row, int col) \<in> set ijs" unfolding S using rm cm by simp
  then have "ijs \<noteq> []" by auto
  then have ne: "ps \<noteq> []" unfolding ps_def by simp
  have val: "\<forall>p \<in> set ps. valid_pixel p"
  proof
    fix p assume "p \<in> set ps"
    then obtain i j where ij: "(i, j) \<in> set ijs" and p: "p = img ! nat i ! nat j"
      unfolding ps_def by auto
    from ij inb have "nat i < height img" and "nat j < width img" by auto
    then show "valid_pixel p" unfolding p by (rule valid_image_nth[OF assms(1)])
  qed
  obtain p where avg: "average_pixel ps = Inr p" and vp: "valid_pixel p"
    using average_pixel_valid[OF ne val] by blast
  define img' where "img' = fill_block img row row_max col col_max p"
  have res: "pixellate_block (height img) (width img) step (row, col) img = Inr img'"
    unfolding pixellate_block_def img'_def
    by (simp add: Let_def row_max_def[symmetric] col_max_def[symmetric] ijs_def[symmetric]
        rd avg)
  have sh: "same_shape img img'"
    unfolding img'_def using fill_block_lengths v by (rule lengths_shape)
  then have v': "verify_image img'" and h': "height img' = height img"
    and w': "width img' = width img"
    unfolding same_shape_def by simp_all
  have "valid_image img'"
  proof (rule valid_imageI[OF v'])
    show "height img' < 2 ^ 63" using h' assms(1) unfolding valid_image_def by simp
    show "width img' < 2 ^ 63" using w' assms(1) unfolding valid_image_def by simp
    fix r c assume r: "r < height img'" and c: "c < width img'"
    have rl: "r < length img" using r h' unfolding height_def by simp
    have cl: "c < length (img ! r)" using verify_image_nth[OF v rl] c w' by simp
    have "valid_pixel (img ! r ! c)" using r c h' w' by (intro valid_image_nth[OF assms(1)]) simp_all
    then show "valid_pixel (img' ! r ! c)"
      unfolding img'_def fill_block_nth[OF rl cl] using vp by simp
  qed
  with res h' w' show ?thesis by blast
qed

lemma pixellate_loop_valid:
  assumes "valid_image img" and "ht = height img" and "wd = width img" and "0 < step"
    and "\<forall>(row, col) \<in> set rcs. row < ht \<and> col < wd"
  shows "\<exists>img'. pixellate_loop ht wd step rcs img = Inr img'"
  using assms
proof (induction rcs arbitrary: img)
  case Nil
  then show ?case by simp
next
  case (Cons rc rcs)
  obtain row col where rc: "rc = (row, col)" by (cases rc)
  have r: "row < height img" and c: "col < width img"
    using Cons.prems(2,3,5) unfolding rc by simp_all
  obtain img1 where
    s0: "pixellate_block (height img) (width img) step (row, col) img = Inr img1"
    and v1: "valid_image img1" and h0: "height img1 = height img"
    and w0: "width img1 = width img"
    using pixellate_block_valid[OF Cons.prems(1) r c Cons.prems(4)] by blast
  have s: "pixellate_block ht wd step rc img = Inr img1"
    unfolding rc Cons.prems(2,3) by (rule s0)
  have h1: "ht = height img1" unfolding Cons.prems(2) h0 ..
  have w1: "wd = width img1" unfolding Cons.prems(3) w0 ..
  have "\<forall>(row, col) \<in> set rcs. row < ht \<and> col < wd" using Cons.prems(5) by simp
  then obtain img' where "pixellate_loop ht wd step rcs img1 = Inr img'"
    using Cons.IH[OF v1 h1 w1 Cons.prems(4)] by blast
  then show ?case using s by simp
qed

lemma range_step_less:
  assumes "0 < step" and "k \<in> set (range_step n step)"
  shows "k < n"
proof -
  from assms(2) obtain j where j: "j < (n + step - 1) div step" and k: "k = j * step"
    unfolding range_step_def by auto
  from j have "Suc j \<le> (n + step - 1) div step" by simp
  then have "Suc j * step \<le> n + step - 1"
    using assms(1) by (simp only: less_eq_div_iff_mult_less_eq)
  then show ?thesis unfolding k using assms(1) by simp
qed

lemma pixellate_total:
  assumes "valid_image b" and "0 < step"
  shows "\<exists>b'. pixellate b step = Inr b'"
proof -
  have v: "verify_image b" using assms(1) unfolding valid_image_def by simp
  then have ne: "b \<noteq> []" unfolding verify_image_iff by simp
  have st: "0 < nat step" using assms(2) by simp
  have in_range: "\<forall>(row, col) \<in> set (concat (map (\<lambda>row. map (\<lambda>col. (row, col))
                       (range_step (width b) (nat step))) (range_step (height b) (nat step)))).
                    row < height b \<and> col < width b"
    using range_step_less[OF st] by auto
  have "pixellate b step
          = pixellate_loop (height b) (width b) (nat step)
              (concat (map (\<lambda>row. map (\<lambda>col. (row, col)) (range_step (width b) (nat step)))
                         (range_step (height b) (nat step)))) b"
    unfolding pixellate_def py_index_hd[OF ne] height_def width_def using assms(2)
    by (simp add: Let_def)
  then show ?thesis
    using pixellate_loop_valid[OF assms(1) refl refl st in_range] by simp
qed

subsection \<open>All transforms\<close>

text \<open>
  Claim C10. Let \<open>b\<close> be a non-empty rectangular buffer with channels in \<open>0..255\<close>. Every
  transform that returns leaves a non-empty rectangular buffer: of the same height and width
  for \<^verbatim>\<open>dered\<close>, \<^verbatim>\<open>mono\<close>, \<^verbatim>\<open>flip\<close>, \<^verbatim>\<open>vignette\<close>, \<^verbatim>\<open>blur\<close>, \<^verbatim>\<open>pixellate\<close>, \<^verbatim>\<open>scramble\<close> and
  \<^verbatim>\<open>brighten\<close>, with height and width exchanged for \<^verbatim>\<open>transpose\<close> and \<^verbatim>\<open>rotate\<close>. And the
  transforms do return: \<^verbatim>\<open>dered\<close>, \<^verbatim>\<open>mono\<close>, \<^verbatim>\<open>flip\<close>, \<^verbatim>\<open>transpose\<close>, \<^verbatim>\<open>rotate\<close> and \<^verbatim>\<open>scramble\<close>
  always, \<^verbatim>\<open>blur\<close> for a radius above 0, \<^verbatim>\<open>pixellate\<close> for a step above 0, \<^verbatim>\<open>brighten\<close> for a
  finite factor of magnitude at most \<open>2 ^ 1000\<close>, and \<^verbatim>\<open>vignette\<close> on every buffer other than
  the single pixel, where \<open>pw\<close>, the square computed by \<^verbatim>\<open>pow\<close>, maps \<open>[0, 1]\<close> into itself.
\<close>

theorem transforms_keep_shape:
  assumes "valid_image b"
  shows "same_shape b (dered b)
       \<and> (\<exists>b'. mono_image b sepia = Inr b' \<and> same_shape b b')
       \<and> same_shape b (flip b vertical)
       \<and> (\<exists>b'. transpose_image b = Inr b' \<and> swapped_shape b b')
       \<and> (\<exists>b'. rotate_image b clockwise = Inr b' \<and> swapped_shape b b')
       \<and> (\<forall>b'. vignette pw b = Inr b' \<longrightarrow> same_shape b b')
       \<and> (\<not> (height b = 1 \<and> width b = 1)
            \<and> (\<forall>x. 0 \<le> x \<and> x \<le> 1 \<longrightarrow> 0 \<le> pw x \<and> pw x \<le> 1)
            \<longrightarrow> (\<exists>b'. vignette pw b = Inr b'))
       \<and> (\<forall>b'. blur b radius = Inr b' \<longrightarrow> same_shape b b')
       \<and> (0 < radius \<longrightarrow> (\<exists>b'. blur b radius = Inr b'))
       \<and> (\<forall>b'. pixellate b step = Inr b' \<longrightarrow> same_shape b b')
       \<and> (0 < step \<longrightarrow> (\<exists>b'. pixellate b step = Inr b'))
       \<and> (\<exists>b'. scramble draws b amount = Inr b' \<and> same_shape b b')
       \<and> (\<forall>b'. brighten b factor = Inr b' \<longrightarrow> same_shape b b')
       \<and> (\<bar>f\<bar> \<le> 2 ^ 1000 \<longrightarrow> (\<exists>b'. brighten b (Finite f) = Inr b'))"
proof -
  have v: "verify_image b" using assms unfolding valid_image_def by simp
  have c1: "same_shape b (dered b)" by (rule dered_shape[OF v])
  have c2: "\<exists>b'. mono_image b sepia = Inr b' \<and> same_shape b b'"
    by (rule mono_same_shape[OF assms])
  have c3: "same_shape b (flip b vertical)" by (rule flip_same_shape[OF v])
  have c4: "\<exists>b'. transpose_image b = Inr b' \<and> swapped_shape b b'"
    by (rule transpose_swapped[OF v])
  have c5: "\<exists>b'. rotate_image b clockwise = Inr b' \<and> swapped_shape b b'"
    by (rule rotate_swapped[OF v])
  have c6: "\<forall>b'. vignette pw b = Inr b' \<longrightarrow> same_shape b b'"
    using vignette_same_shape[OF _ v] by blast
  have c7: "\<not> (height b = 1 \<and> width b = 1)
            \<and> (\<forall>x. 0 \<le> x \<and> x \<le> 1 \<longrightarrow> 0 \<le> pw x \<and> pw x \<le> 1)
            \<longrightarrow> (\<exists>b'. vignette pw b = Inr b')"
    using vignette_total[OF assms] by blast
  have c8: "\<forall>b'. blur b radius = Inr b' \<longrightarrow> same_shape b b'"
    using blur_shape[OF _ v] by blast
  have c9: "0 < radius \<longrightarrow> (\<exists>b'. blur b radius = Inr b')"
    using blur_total[OF assms, of radius] by simp
  have c10: "\<forall>b'. pixellate b step = Inr b' \<longrightarrow> same_shape b b'"
    using pixellate_shape[OF _ v] by blast
  have c11: "0 < step \<longrightarrow> (\<exists>b'. pixellate b step = Inr b')"
    using pixellate_total[OF assms] by blast
  have c12: "\<exists>b'. scramble draws b amount = Inr b' \<and> same_shape b b'"
    by (rule scramble_ok[OF v])
  have c13: "\<forall>b'. brighten b factor = Inr b' \<longrightarrow> same_shape b b'"
    using brighten_shape[OF _ v] by blast
  have c14: "\<bar>f\<bar> \<le> 2 ^ 1000 \<longrightarrow> (\<exists>b'. brighten b (Finite f) = Inr b')"
    using brighten_total[OF assms] by blast
  show ?thesis
    by (intro conjI) (rule c1 c2 c3 c4 c5 c6 c7 c8 c9 c10 c11 c12 c13 c14)+
qed

theorem transforms_keep_shape_witness:
  "valid_image [[mk_RGB 10 20 30 255, mk_RGB 40 50 60 255]]
   \<and> same_shape [[mk_RGB 10 20 30 255, mk_RGB 40 50 60 255]]
        (dered [[mk_RGB 10 20 30 255, mk_RGB 40 50 60 255]])
   \<and> (\<exists>b'. transpose_image [[mk_RGB 10 20 30 255, mk_RGB 40 50 60 255]] = Inr b'
          \<and> swapped_shape [[mk_RGB 10 20 30 255, mk_RGB 40 50 60 255]] b')
   \<and> (\<exists>b'. vignette pow2_rounded [[mk_RGB 10 20 30 255, mk_RGB 40 50 60 255]] = Inr b'
          \<and> same_shape [[mk_RGB 10 20 30 255, mk_RGB 40 50 60 255]] b')
   \<and> (\<exists>b'. blur [[mk_RGB 10 20 30 255, mk_RGB 40 50 60 255]] 1 = Inr b'
          \<and> same_shape [[mk_RGB 10 20 30 255, mk_RGB 40 50 60 255]] b')
   \<and> (\<exists>b'. pixellate [[mk_RGB 10 20 30 255, mk_RGB 40 50 60 255]] 1 = Inr b'
          \<and> same_shape [[mk_RGB 10 20 30 255, mk_RGB 40 50 60 255]] b')
   \<and> (\<exists>b'. scramble Suc [[mk_RGB 10 20 30 255, mk_RGB 40 50 60 255]] 1 = Inr b'
          \<and> same_shape [[mk_RGB 10 20 30 255, mk_RGB 40 50 60 255]] b')
   \<and> (\<exists>b'. brighten [[mk_RGB 10 20 30 255, mk_RGB 40 50 60 255]] (Finite (5 / 4)) = Inr b'
          \<and> same_shape [[mk_RGB 10 20 30 255, mk_RGB 40 50 60 255]] b')"
proof -
  let ?b = "[[mk_RGB 10 20 30 255, mk_RGB 40 50 60 255]]"
  have h1: "valid_image ?b"
    by (simp add: valid_image_def verify_image_def height_def width_def valid_pixel_def
        mk_RGB_def)
  have h2: "\<not> (height ?b = 1 \<and> width ?b = 1)" by (simp add: width_def)
  have h3: "(0::int) < 1" by simp
  have h4: "\<bar>5 / 4 :: real\<bar> \<le> 2 ^ 1000" by simp
  note t = transforms_keep_shape[OF h1, where pw = pow2_rounded and radius = 1 and step = 1
      and draws = Suc and amount = 1 and factor = "Finite (5 / 4)" and f = "5 / 4"]
  have a: "same_shape ?b (dered ?b)" using t by blast
  have b: "\<exists>b'. transpose_image ?b = Inr b' \<and> swapped_shape ?b b'" using t by blast
  have c: "\<exists>b'. vignette pow2_rounded ?b = Inr b' \<and> same_shape ?b b'"
    using t h2 pow2_rounded_unit by blast
  have d: "\<exists>b'. blur ?b 1 = Inr b' \<and> same_shape ?b b'" using t h3 by blast
  have e: "\<exists>b'. pixellate ?b 1 = Inr b' \<and> same_shape ?b b'" using t h3 by blast
  have f: "\<exists>b'. scramble Suc ?b 1 = Inr b' \<and> same_shape ?b b'" using t by blast
  have g: "\<exists>b'. brighten ?b (Finite (5 / 4)) = Inr b' \<and> same_shape ?b b'"
    using t h4 by blast
  from h1 a b c d e f g show ?thesis by (intro conjI)
qed

end
